theory Spec2Isabelle
  imports Main "HOL-Library.Word" "HOL-Library.Multiset"
begin

unbundle bit_operations_syntax

section \<open>Machine types and ELF constants\<close>

type_synonym u8 = "8 word"
type_synonym u16 = "16 word"
type_synonym u32 = "32 word"
type_synonym u64 = "64 word"
type_synonym i64 = "64 word"

text \<open>
  Modelled from the spec: the header \<^verbatim>\<open>mold.h\<close> and the ELF constants it takes from
  \<^verbatim>\<open>llvm/BinaryFormat/ELF.h\<close> are not among the sources. The spec names the section
  flags and section types; the numbers are those of the ELF gABI.
\<close>

definition SHF_WRITE :: u64 where "SHF_WRITE = 1"
definition SHF_ALLOC :: u64 where "SHF_ALLOC = 2"
definition SHF_EXECINSTR :: u64 where "SHF_EXECINSTR = 4"
definition SHT_NOBITS :: u32 where "SHT_NOBITS = 8"
definition SHT_INIT_ARRAY :: u32 where "SHT_INIT_ARRAY = 14"
definition SHT_FINI_ARRAY :: u32 where "SHT_FINI_ARRAY = 15"

record ElfShdr =
  sh_flags :: u64
  sh_type :: u32
  sh_size :: u64

section \<open>ICF eligibility\<close>

text \<open>
  Modelled from the spec: \<^verbatim>\<open>isalpha\<close> and \<^verbatim>\<open>isalnum\<close> belong to the C library, not to
  the sources. They are taken in the "C" locale: the ASCII letters, and the ASCII letters
  and digits.
\<close>

definition isalpha :: "char \<Rightarrow> bool" where
  "isalpha c = (let n = (of_char c :: nat) in (65 \<le> n \<and> n \<le> 90) \<or> (97 \<le> n \<and> n \<le> 122))"

definition isdigit :: "char \<Rightarrow> bool" where
  "isdigit c = (let n = (of_char c :: nat) in 48 \<le> n \<and> n \<le> 57)"

definition isalnum :: "char \<Rightarrow> bool" where
  "isalnum c = (isalpha c \<or> isdigit c)"

text \<open>
  \<^verbatim>\<open>is_c_identifier\<close> of \<^verbatim>\<open>object_file.cc\<close>. The \<^verbatim>\<open>for\<close> loop from index 1 is the
  recursion on the index.
\<close>

function is_c_identifier_loop :: "string \<Rightarrow> nat \<Rightarrow> bool" where
  "is_c_identifier_loop name i =
     (if i < length name then
        (if \<not> isalnum (name ! i) \<and> name ! i \<noteq> CHR ''_'' then False
         else is_c_identifier_loop name (i + 1))
      else True)"
  by pat_completeness auto
termination
  by (relation "measure (\<lambda>(name, i). length name - i)") auto

declare is_c_identifier_loop.simps [simp del]

definition is_c_identifier :: "string \<Rightarrow> bool" where
  "is_c_identifier name =
     (if name = '''' then False
      else if \<not> isalpha (name ! 0) \<and> name ! 0 \<noteq> CHR ''_'' then False
      else is_c_identifier_loop name 1)"

text \<open>
  The part of an input section that \<^verbatim>\<open>is_eligible\<close> reads: its section header and
  its name.
\<close>

record InputChunk =
  shdr :: ElfShdr
  name :: string

definition is_eligible :: "'a InputChunk_scheme \<Rightarrow> bool" where
  "is_eligible isec =
     (let is_alloc = (sh_flags (shdr isec) AND SHF_ALLOC \<noteq> 0);
          is_executable = (sh_flags (shdr isec) AND SHF_EXECINSTR \<noteq> 0);
          is_writable = (sh_flags (shdr isec) AND SHF_WRITE \<noteq> 0);
          is_bss = (sh_type (shdr isec) = SHT_NOBITS);
          is_init = (sh_type (shdr isec) = SHT_INIT_ARRAY \<or> name isec = ''.init'');
          is_fini = (sh_type (shdr isec) = SHT_FINI_ARRAY \<or> name isec = ''.fini'');
          is_enumerable = is_c_identifier (name isec)
      in is_alloc \<and> is_executable \<and> \<not> is_writable \<and> \<not> is_bss \<and>
         \<not> is_init \<and> \<not> is_fini \<and> \<not> is_enumerable)"

section \<open>Relocations: data model\<close>

text \<open>
  Modelled from the spec: the relocation codes \<^verbatim>\<open>R_X86_64_*\<close> are constants of the
  absent ELF header. The codes that the sources name are constructors; every other code
  is \<open>R_X86_64_UNKNOWN\<close> and takes the \<^verbatim>\<open>default\<close> branch of a \<^verbatim>\<open>switch\<close>.
\<close>

datatype r_x86_64 =
    R_X86_64_NONE | R_X86_64_8 | R_X86_64_16 | R_X86_64_32 | R_X86_64_32S | R_X86_64_64
  | R_X86_64_PC8 | R_X86_64_PC16 | R_X86_64_PC32 | R_X86_64_PC64
  | R_X86_64_GOT32 | R_X86_64_GOTPC32 | R_X86_64_GOTPCREL | R_X86_64_GOTPCRELX
  | R_X86_64_REX_GOTPCRELX | R_X86_64_PLT32 | R_X86_64_TLSGD | R_X86_64_TLSLD
  | R_X86_64_TPOFF32 | R_X86_64_DTPOFF32 | R_X86_64_TPOFF64 | R_X86_64_DTPOFF64
  | R_X86_64_GOTTPOFF | R_X86_64_RELATIVE | R_X86_64_UNKNOWN u32

text \<open>
  Modelled from the spec: the relocation kinds that the classifier assigns are an enum of
  the absent \<^verbatim>\<open>mold.h\<close>; the spec gives the closed set, \<open>R_NONE\<close> first. A slot of
  \<^verbatim>\<open>rel_types\<close> that \<^verbatim>\<open>resize\<close> creates holds \<open>R_NONE\<close>.
\<close>

datatype rel_type =
    R_NONE | R_ABS | R_ABS_DYN | R_DYN | R_PC | R_GOT | R_GOTPC | R_GOTPCREL
  | R_TLSGD | R_TLSGD_RELAX_LE | R_TLSLD | R_TLSLD_RELAX_LE | R_DTPOFF | R_TPOFF
  | R_GOTTPOFF

datatype sym_flag =
    NEEDS_PLT | NEEDS_GOT | NEEDS_GOTTPOFF | NEEDS_TLSGD | NEEDS_TLSLD | NEEDS_DYNSYM
  | NEEDS_COPYREL

definition STT_FUNC :: u8 where "STT_FUNC = 2"
definition STT_GNU_IFUNC :: u8 where "STT_GNU_IFUNC = 10"

record ElfRela =
  r_offset :: u64
  r_type :: r_x86_64
  r_sym :: u32
  r_addend :: i64

text \<open>\<^verbatim>\<open>sizeof(ElfRela)\<close>: two 64-bit fields and two 32-bit fields.\<close>

definition sizeof_ElfRela :: nat where "sizeof_ElfRela = 24"

record SectionFragment =
  frag_data :: "u8 list"
  frag_addr :: u64

record SectionFragmentRef =
  frag :: SectionFragment
  addend :: i64

type_synonym isec_ptr = nat
type_synonym sym_ptr = nat

text \<open>
  Modelled from the spec: \<^verbatim>\<open>Symbol\<close> is declared in the absent \<^verbatim>\<open>mold.h\<close>. The fields are
  those the sources read and write. \<open>sym_file\<close> says that \<^verbatim>\<open>sym.file\<close> is not null. The
  accessors \<^verbatim>\<open>is_relative()\<close>, \<^verbatim>\<open>get_addr()\<close>, \<^verbatim>\<open>get_plt_addr()\<close>, \<^verbatim>\<open>get_got_addr()\<close>,
  \<^verbatim>\<open>get_tlsgd_addr()\<close> and \<^verbatim>\<open>get_gottpoff_addr()\<close> are the fields \<open>is_relative\<close>,
  \<open>sym_addr\<close>, \<open>plt_addr\<close>, \<open>got_addr\<close>, \<open>tlsgd_addr\<close> and \<open>gottpoff_addr\<close>: what they
  return once the layout is fixed. The demand flags are a set of flags, \<^verbatim>\<open>flags |= F\<close> is
  the insertion of \<open>F\<close>.
\<close>

record Symbol =
  sym_name :: string
  sym_file :: bool
  is_placeholder :: bool
  is_imported :: bool
  is_relative :: bool
  st_type :: u8
  flags :: "sym_flag set"
  plt_idx :: u32
  dynsym_idx :: u32
  sym_frag :: "SectionFragment option"
  input_section :: "isec_ptr option"
  sym_value :: u64
  sym_addr :: u64
  plt_addr :: u64
  got_addr :: u64
  tlsgd_addr :: u64
  gottpoff_addr :: u64

text \<open>
  Every \<^verbatim>\<open>Error() << ...\<close> of the sources adds one message to the error stream; the
  stream is a list, in the order of reporting.
\<close>

datatype error =
    Undefined_symbol string
  | Recompile_with_fPIE r_x86_64 string
  | TLSGD_not_followed_by_PLT32
  | TLSLD_not_followed_by_PLT32
  | TLSLD_refers_external string
  | DTPOFF_refers_external string
  | Unknown_relocation r_x86_64
  | Out_of_range r_x86_64 string u64
  | Invalid_relocation_nonalloc r_x86_64

text \<open>
  What has no defined result in C++, or ends the program, is a fault:
  \<^verbatim>\<open>unreachable()\<close>, an index beyond the end of a vector or a span, a write through a
  null pointer, the exception of \<^verbatim>\<open>substr\<close> for a position beyond the end.
\<close>

datatype fault = Unreachable | Out_of_bounds | Null_deref | Substr_out_of_range

record config =
  pie :: bool
  relax :: bool

text \<open>
  An input section. \<open>contents\<close> is what \<^verbatim>\<open>get_contents()\<close> returns, \<open>offset\<close> the
  section's offset in its output section, \<open>out_sh_addr\<close> and \<open>out_sh_offset\<close> the fields
  \<^verbatim>\<open>output_section->shdr.sh_addr\<close> and \<^verbatim>\<open>output_section->shdr.sh_offset\<close>.
\<close>

record EhReloc =
  eh_sym :: sym_ptr
  eh_type :: u32
  eh_offset :: u32
  eh_addend :: i64

record FdeRecord =
  fde_contents :: "u8 list"
  fde_rels :: "EhReloc list"

record InputSection = InputChunk +
  contents :: "u8 list"
  rels :: "ElfRela list"
  rel_types :: "rel_type list"
  has_fragments :: "bool list"
  rel_fragments :: "SectionFragmentRef list"
  fdes :: "FdeRecord list"
  reldyn_offset :: nat
  offset :: u64
  out_sh_addr :: u64
  out_sh_offset :: u64

text \<open>
  What scanning changes outside the section: the counter \<^verbatim>\<open>num_dynrel\<close> of the file, the
  symbols (a store from symbol addresses to symbols, since the vector \<^verbatim>\<open>file->symbols\<close>
  holds pointers) and the error stream. \<open>num_dynrel\<close> is a natural number: the 64-bit
  counter cannot wrap around with relocations held in memory.
\<close>

record err_stream =
  errors :: "error list"

record scan_env = err_stream +
  num_dynrel :: nat
  syms :: "sym_ptr \<Rightarrow> Symbol"

section \<open>Relocation scanning\<close>

definition Error :: "error \<Rightarrow> 'a err_stream_scheme \<Rightarrow> 'a err_stream_scheme" where
  "Error e env = env\<lparr>errors := errors env @ [e]\<rparr>"

definition add_flag :: "sym_ptr \<Rightarrow> sym_flag \<Rightarrow> 'a scan_env_scheme \<Rightarrow> 'a scan_env_scheme" where
  "add_flag p f env = env\<lparr>syms := (syms env)(p := (syms env p)\<lparr>flags := insert f (flags (syms env p))\<rparr>)\<rparr>"

text \<open>\<^verbatim>\<open>std::vector::resize\<close>: the first elements are kept, new slots are value-initialised.\<close>

definition resize :: "nat \<Rightarrow> 'a \<Rightarrow> 'a list \<Rightarrow> 'a list" where
  "resize n d xs = take n xs @ replicate (n - length xs) d"

text \<open>
  One turn of the loop of \<^verbatim>\<open>scan_relocations\<close>, for the relocation at index \<open>i\<close> of
  the section \<open>isec\<close>. What the turn changes is the vector \<^verbatim>\<open>rel_types\<close> of the section
  and the environment; the result holds both and says whether the turn ran the extra
  \<^verbatim>\<open>i++\<close> that consumes the next relocation.
\<close>

definition scan_rel ::
  "config \<Rightarrow> sym_ptr list \<Rightarrow> InputSection \<Rightarrow> nat \<Rightarrow> rel_type list \<times> scan_env \<Rightarrow>
   fault + (rel_type list \<times> scan_env \<times> bool)" where
  "scan_rel cfg symbols isec i st =
    (let rts = fst st; env = snd st; rel = rels isec ! i in
     if \<not> unat (r_sym rel) < length symbols then Inl Out_of_bounds
     else
      let p = symbols ! unat (r_sym rel);
          sym = syms env p;
          is_readonly = (sh_flags (shdr isec) AND SHF_WRITE = 0);
          is_code = (st_type sym = STT_FUNC);
          report_error = Error (Recompile_with_fPIE (r_type rel) (sym_name sym));
          plt_or_copyrel = (if is_imported sym
                            then add_flag p (if is_code then NEEDS_PLT else NEEDS_COPYREL)
                            else id);
          next_not_plt32 = (i + 1 = length (rels isec) \<or>
                            r_type (rels isec ! (i + 1)) \<noteq> R_X86_64_PLT32)
      in
      if \<not> sym_file sym \<or> is_placeholder sym then
        Inr (rts, Error (Undefined_symbol (sym_name sym)) env, False)
      else
        (case r_type rel of
           R_X86_64_NONE \<Rightarrow> Inr (rts[i := R_NONE], env, False)
         | R_X86_64_8 \<Rightarrow>
             Inr (rts[i := R_ABS],
                  plt_or_copyrel ((if pie cfg \<and> is_relative sym then report_error else id) env),
                  False)
         | R_X86_64_16 \<Rightarrow>
             Inr (rts[i := R_ABS],
                  plt_or_copyrel ((if pie cfg \<and> is_relative sym then report_error else id) env),
                  False)
         | R_X86_64_32 \<Rightarrow>
             Inr (rts[i := R_ABS],
                  plt_or_copyrel ((if pie cfg \<and> is_relative sym then report_error else id) env),
                  False)
         | R_X86_64_32S \<Rightarrow>
             Inr (rts[i := R_ABS],
                  plt_or_copyrel ((if pie cfg \<and> is_relative sym then report_error else id) env),
                  False)
         | R_X86_64_64 \<Rightarrow>
             (if pie cfg then
                (if is_imported sym then
                   Inr (rts[i := R_DYN],
                        (let env1 = (if is_readonly then report_error env else env);
                             env2 = add_flag p NEEDS_DYNSYM env1
                         in env2\<lparr>num_dynrel := num_dynrel env2 + 1\<rparr>),
                        False)
                 else if is_relative sym then
                   Inr (rts[i := R_ABS_DYN],
                        (let env1 = (if is_readonly then report_error env else env)
                         in env1\<lparr>num_dynrel := num_dynrel env1 + 1\<rparr>),
                        False)
                 else Inr (rts[i := R_ABS], env, False))
              else Inr (rts[i := R_ABS], plt_or_copyrel env, False))
         | R_X86_64_PC8 \<Rightarrow> Inr (rts[i := R_PC], plt_or_copyrel env, False)
         | R_X86_64_PC16 \<Rightarrow> Inr (rts[i := R_PC], plt_or_copyrel env, False)
         | R_X86_64_PC32 \<Rightarrow> Inr (rts[i := R_PC], plt_or_copyrel env, False)
         | R_X86_64_PC64 \<Rightarrow> Inr (rts[i := R_PC], plt_or_copyrel env, False)
         | R_X86_64_GOT32 \<Rightarrow> Inr (rts[i := R_GOT], add_flag p NEEDS_GOT env, False)
         | R_X86_64_GOTPC32 \<Rightarrow> Inr (rts[i := R_GOTPC], add_flag p NEEDS_GOT env, False)
         | R_X86_64_GOTPCREL \<Rightarrow>
             Inr (rts[i := R_GOTPCREL], add_flag p NEEDS_GOT env, False)
         | R_X86_64_GOTPCRELX \<Rightarrow>
             Inr (rts[i := R_GOTPCREL], add_flag p NEEDS_GOT env, False)
         | R_X86_64_REX_GOTPCRELX \<Rightarrow>
             Inr (rts[i := R_GOTPCREL], add_flag p NEEDS_GOT env, False)
         | R_X86_64_PLT32 \<Rightarrow>
             Inr (rts[i := R_PC],
                  (if is_imported sym \<or> st_type sym = STT_GNU_IFUNC
                   then add_flag p NEEDS_PLT env else env),
                  False)
         | R_X86_64_TLSGD \<Rightarrow>
             (let env1 = (if next_not_plt32 then Error TLSGD_not_followed_by_PLT32 env else env)
              in if relax cfg \<and> \<not> is_imported sym then
                   Inr (rts[i := R_TLSGD_RELAX_LE], env1, True)
                 else
                   Inr (rts[i := R_TLSGD],
                        add_flag p NEEDS_DYNSYM (add_flag p NEEDS_TLSGD env1), False))
         | R_X86_64_TLSLD \<Rightarrow>
             (let env1 = (if next_not_plt32 then Error TLSLD_not_followed_by_PLT32 env else env);
                  env2 = (if is_imported sym
                          then Error (TLSLD_refers_external (sym_name sym)) env1 else env1)
              in if relax cfg then
                   Inr (rts[i := R_TLSLD_RELAX_LE], env2, True)
                 else
                   Inr (rts[i := R_TLSLD], add_flag p NEEDS_TLSLD env2, False))
         | R_X86_64_DTPOFF32 \<Rightarrow>
             Inr (rts[i := (if relax cfg then R_TPOFF else R_DTPOFF)],
                  (if is_imported sym
                   then Error (DTPOFF_refers_external (sym_name sym)) env else env),
                  False)
         | R_X86_64_DTPOFF64 \<Rightarrow>
             Inr (rts[i := (if relax cfg then R_TPOFF else R_DTPOFF)],
                  (if is_imported sym
                   then Error (DTPOFF_refers_external (sym_name sym)) env else env),
                  False)
         | R_X86_64_TPOFF32 \<Rightarrow> Inr (rts[i := R_TPOFF], env, False)
         | R_X86_64_TPOFF64 \<Rightarrow> Inr (rts[i := R_TPOFF], env, False)
         | R_X86_64_GOTTPOFF \<Rightarrow>
             Inr (rts[i := R_GOTTPOFF], add_flag p NEEDS_GOTTPOFF env, False)
         | _ \<Rightarrow> Inr (rts, Error (Unknown_relocation (r_type rel)) env, False)))"

text \<open>The loop of \<^verbatim>\<open>scan_relocations\<close> from index \<open>i\<close>.\<close>

function scan_loop ::
  "config \<Rightarrow> sym_ptr list \<Rightarrow> InputSection \<Rightarrow> nat \<Rightarrow> rel_type list \<times> scan_env \<Rightarrow>
   fault + (rel_type list \<times> scan_env)" where
  "scan_loop cfg symbols isec i st =
     (if i < length (rels isec) then
        (case scan_rel cfg symbols isec i st of
           Inl f \<Rightarrow> Inl f
         | Inr (rts, env, consumed) \<Rightarrow>
             scan_loop cfg symbols isec (if consumed then i + 2 else i + 1) (rts, env))
      else Inr st)"
  by pat_completeness auto
termination
  by (relation "measure (\<lambda>(cfg, symbols, isec, i, st). length (rels isec) - i)") auto

declare scan_loop.simps [simp del]

text \<open>
  \<^verbatim>\<open>scan_relocations\<close> on the section \<open>isec\<close> of a file whose vector of symbols is
  \<open>symbols\<close>: the section and the environment after the scan.
\<close>

definition scan_relocations ::
  "config \<Rightarrow> sym_ptr list \<Rightarrow> InputSection \<times> scan_env \<Rightarrow> fault + (InputSection \<times> scan_env)" where
  "scan_relocations cfg symbols st =
     (let isec = fst st; env = snd st in
      if sh_flags (shdr isec) AND SHF_ALLOC = 0 then Inr st
      else
        (case scan_loop cfg symbols isec 0
                (resize (length (rels isec)) R_NONE (rel_types isec), env) of
           Inl f \<Rightarrow> Inl f
         | Inr (rts, env') \<Rightarrow>
             Inr (isec\<lparr>rel_types := rts,
                       reldyn_offset := num_dynrel env * sizeof_ElfRela\<rparr>, env')))"

section \<open>Relocation application\<close>

text \<open>
  The output buffer \<^verbatim>\<open>out::buf\<close> is a memory of bytes; an address is an offset from
  \<^verbatim>\<open>out::buf\<close>, a 64-bit word, so that pointer arithmetic wraps around as on the machine.
\<close>

type_synonym memory = "u64 \<Rightarrow> u8"

fun memcpy :: "u64 \<Rightarrow> u8 list \<Rightarrow> memory \<Rightarrow> memory" where
  "memcpy dst [] m = m"
| "memcpy dst (b # bs) m = memcpy (dst + 1) bs (m(dst := b))"

text \<open>The \<open>n\<close> low bytes of a value, least significant first (x86-64 is little-endian).\<close>

definition le_bytes :: "nat \<Rightarrow> u64 \<Rightarrow> u8 list" where
  "le_bytes n v = map (\<lambda>k. ucast (drop_bit (8 * k) v)) [0..<n]"

definition store_u8 :: "u64 \<Rightarrow> u8 \<Rightarrow> memory \<Rightarrow> memory" where
  "store_u8 loc v m = memcpy loc (le_bytes 1 (ucast v)) m"

definition store_u16 :: "u64 \<Rightarrow> u16 \<Rightarrow> memory \<Rightarrow> memory" where
  "store_u16 loc v m = memcpy loc (le_bytes 2 (ucast v)) m"

definition store_u32 :: "u64 \<Rightarrow> u32 \<Rightarrow> memory \<Rightarrow> memory" where
  "store_u32 loc v m = memcpy loc (le_bytes 4 (ucast v)) m"

definition store_u64 :: "u64 \<Rightarrow> u64 \<Rightarrow> memory \<Rightarrow> memory" where
  "store_u64 loc v m = memcpy loc (le_bytes 8 v) m"

text \<open>
  \<^verbatim>\<open>overflow_check\<close>: the messages that the check adds to the error stream (none or one).
  The parameter \<^verbatim>\<open>sec\<close> of the source only enters the text of the message.
\<close>

definition overflow_check :: "Symbol \<Rightarrow> r_x86_64 \<Rightarrow> u64 \<Rightarrow> fault + error list" where
  "overflow_check sy ty val =
    (let out_of_range = [Out_of_range ty (sym_name sy) val];
         i32_check = Inr (if val \<noteq> scast (ucast val :: u32) then out_of_range else [])
     in case ty of
          R_X86_64_8 \<Rightarrow> Inr (if val \<noteq> ucast (ucast val :: u8) then out_of_range else [])
        | R_X86_64_PC8 \<Rightarrow> Inr (if val \<noteq> scast (ucast val :: u8) then out_of_range else [])
        | R_X86_64_16 \<Rightarrow> Inr (if val \<noteq> ucast (ucast val :: u16) then out_of_range else [])
        | R_X86_64_PC16 \<Rightarrow> Inr (if val \<noteq> scast (ucast val :: u16) then out_of_range else [])
        | R_X86_64_32 \<Rightarrow> Inr (if val \<noteq> ucast (ucast val :: u32) then out_of_range else [])
        | R_X86_64_32S \<Rightarrow> i32_check
        | R_X86_64_PC32 \<Rightarrow> i32_check
        | R_X86_64_GOT32 \<Rightarrow> i32_check
        | R_X86_64_GOTPC32 \<Rightarrow> i32_check
        | R_X86_64_GOTPCREL \<Rightarrow> i32_check
        | R_X86_64_GOTPCRELX \<Rightarrow> i32_check
        | R_X86_64_REX_GOTPCRELX \<Rightarrow> i32_check
        | R_X86_64_PLT32 \<Rightarrow> i32_check
        | R_X86_64_TLSGD \<Rightarrow> i32_check
        | R_X86_64_TLSLD \<Rightarrow> i32_check
        | R_X86_64_TPOFF32 \<Rightarrow> i32_check
        | R_X86_64_DTPOFF32 \<Rightarrow> i32_check
        | R_X86_64_GOTTPOFF \<Rightarrow> i32_check
        | R_X86_64_NONE \<Rightarrow> Inr []
        | R_X86_64_64 \<Rightarrow> Inr []
        | R_X86_64_PC64 \<Rightarrow> Inr []
        | R_X86_64_TPOFF64 \<Rightarrow> Inr []
        | R_X86_64_DTPOFF64 \<Rightarrow> Inr []
        | _ \<Rightarrow> Inl Unreachable)"

definition write_val :: "r_x86_64 \<Rightarrow> u64 \<Rightarrow> u64 \<Rightarrow> memory \<Rightarrow> fault + memory" where
  "write_val ty loc val m =
    (let w32 = Inr (store_u32 loc (ucast val) m)
     in case ty of
          R_X86_64_NONE \<Rightarrow> Inr m
        | R_X86_64_8 \<Rightarrow> Inr (store_u8 loc (ucast val) m)
        | R_X86_64_PC8 \<Rightarrow> Inr (store_u8 loc (ucast val) m)
        | R_X86_64_16 \<Rightarrow> Inr (store_u16 loc (ucast val) m)
        | R_X86_64_PC16 \<Rightarrow> Inr (store_u16 loc (ucast val) m)
        | R_X86_64_32 \<Rightarrow> w32
        | R_X86_64_32S \<Rightarrow> w32
        | R_X86_64_PC32 \<Rightarrow> w32
        | R_X86_64_GOT32 \<Rightarrow> w32
        | R_X86_64_GOTPC32 \<Rightarrow> w32
        | R_X86_64_GOTPCREL \<Rightarrow> w32
        | R_X86_64_GOTPCRELX \<Rightarrow> w32
        | R_X86_64_REX_GOTPCRELX \<Rightarrow> w32
        | R_X86_64_PLT32 \<Rightarrow> w32
        | R_X86_64_TLSGD \<Rightarrow> w32
        | R_X86_64_TLSLD \<Rightarrow> w32
        | R_X86_64_TPOFF32 \<Rightarrow> w32
        | R_X86_64_DTPOFF32 \<Rightarrow> w32
        | R_X86_64_GOTTPOFF \<Rightarrow> w32
        | R_X86_64_64 \<Rightarrow> Inr (store_u64 loc val m)
        | R_X86_64_PC64 \<Rightarrow> Inr (store_u64 loc val m)
        | R_X86_64_TPOFF64 \<Rightarrow> Inr (store_u64 loc val m)
        | R_X86_64_DTPOFF64 \<Rightarrow> Inr (store_u64 loc val m)
        | _ \<Rightarrow> Inl Unreachable)"

text \<open>
  What the applier reads of the output: the address of the GOT, the address that
  \<^verbatim>\<open>out::got->get_tlsld_addr()\<close> returns, the bounds of the TLS segment, and the file offset
  of \<^verbatim>\<open>.rela.dyn\<close> (\<open>None\<close> when \<^verbatim>\<open>out::reldyn\<close> is null).
\<close>

record out_ctx =
  got_sh_addr :: u64
  got_tlsld_addr :: u64
  tls_begin :: u64
  tls_end :: u64
  reldyn_sh_offset :: "u64 option"

text \<open>
  The state of the applier: the error stream, the output buffer, the records written
  through \<^verbatim>\<open>dynrel\<close> (each with the offset in the buffer where it was written, in the
  order of writing), and the two local variables \<^verbatim>\<open>ref_idx\<close> and \<^verbatim>\<open>dynrel\<close>.
\<close>

record apply_state = err_stream +
  buf :: memory
  reldyn :: "(u64 \<times> ElfRela) list"
  ref_idx :: nat
  dynrel :: "u64 option"

text \<open>\<^verbatim>\<open>*dynrel++ = rec\<close>.\<close>

definition emit_dynrel :: "ElfRela \<Rightarrow> apply_state \<Rightarrow> fault + apply_state" where
  "emit_dynrel rec st =
     (case dynrel st of
        None \<Rightarrow> Inl Null_deref
      | Some p \<Rightarrow> Inr (st\<lparr>reldyn := reldyn st @ [(p, rec)],
                            dynrel := Some (p + of_nat sizeof_ElfRela)\<rparr>))"

text \<open>The lambda \<^verbatim>\<open>write\<close> of \<^verbatim>\<open>apply_reloc_alloc\<close>: the range check, then the write.\<close>

definition write_checked ::
  "Symbol \<Rightarrow> r_x86_64 \<Rightarrow> u64 \<Rightarrow> u64 \<Rightarrow> apply_state \<Rightarrow> fault + apply_state" where
  "write_checked sy ty loc val st =
     (case overflow_check sy ty val of
        Inl f \<Rightarrow> Inl f
      | Inr es \<Rightarrow>
          (case write_val ty loc val (buf st) of
             Inl f \<Rightarrow> Inl f
           | Inr m \<Rightarrow> Inr (st\<lparr>errors := errors st @ es, buf := m\<rparr>)))"

definition tlsgd_relax_insn :: "u8 list" where
  "tlsgd_relax_insn =
     [0x64, 0x48, 0x8b, 0x04, 0x25, 0, 0, 0, 0,
      0x48, 0x8d, 0x80, 0, 0, 0, 0]"

definition tlsld_relax_insn :: "u8 list" where
  "tlsld_relax_insn = [0x66, 0x66, 0x66, 0x64, 0x48, 0x8b, 0x04, 0x25, 0, 0, 0, 0]"

text \<open>
  One turn of the loop of \<^verbatim>\<open>apply_reloc_alloc\<close>, for the relocation at index \<open>i\<close>: the
  new state and whether the turn ran the extra \<^verbatim>\<open>i++\<close>. \<open>S\<close>, \<open>A\<close>, \<open>P\<close>, \<open>G\<close> and
  \<open>GOT\<close> are the macros of the source.
\<close>

definition apply_rel ::
  "out_ctx \<Rightarrow> sym_ptr list \<Rightarrow> (sym_ptr \<Rightarrow> Symbol) \<Rightarrow> InputSection \<Rightarrow> u64 \<Rightarrow> nat \<Rightarrow>
   apply_state \<Rightarrow> fault + (apply_state \<times> bool)" where
  "apply_rel out symbols symtab isec base i st0 =
    (let rel = rels isec ! i in
     if \<not> unat (r_sym rel) < length symbols then Inl Out_of_bounds
     else if \<not> i < length (has_fragments isec) then Inl Out_of_bounds
     else if has_fragments isec ! i \<and> \<not> ref_idx st0 < length (rel_fragments isec)
     then Inl Out_of_bounds
     else if \<not> i < length (rel_types isec) then Inl Out_of_bounds
     else
      let sym = symtab (symbols ! unat (r_sym rel));
          loc = base + r_offset rel;
          ref = (if has_fragments isec ! i then Some (rel_fragments isec ! ref_idx st0)
                 else None);
          st = (if has_fragments isec ! i then st0\<lparr>ref_idx := ref_idx st0 + 1\<rparr> else st0);
          S = (case ref of
                 Some r \<Rightarrow> frag_addr (frag r)
               | None \<Rightarrow> (if plt_idx sym = - 1 then sym_addr sym else plt_addr sym));
          A = (case ref of Some r \<Rightarrow> addend r | None \<Rightarrow> r_addend rel);
          P = out_sh_addr isec + offset isec + r_offset rel;
          G = got_addr sym - got_sh_addr out;
          GOT = got_sh_addr out;
          write = (\<lambda>val. map_sum id (\<lambda>s. (s, False)) (write_checked sym (r_type rel) loc val st))
      in
       (case rel_types isec ! i of
          R_NONE \<Rightarrow> Inr (st, False)
        | R_ABS \<Rightarrow> write (S + A)
        | R_ABS_DYN \<Rightarrow>
            (case write_checked sym (r_type rel) loc (S + A) st of
               Inl f \<Rightarrow> Inl f
             | Inr st1 \<Rightarrow>
                 map_sum id (\<lambda>s. (s, False))
                   (emit_dynrel \<lparr>r_offset = P, r_type = R_X86_64_RELATIVE, r_sym = 0,
                                 r_addend = S + A\<rparr> st1))
        | R_DYN \<Rightarrow>
            map_sum id (\<lambda>s. (s, False))
              (emit_dynrel \<lparr>r_offset = P, r_type = R_X86_64_64, r_sym = dynsym_idx sym,
                            r_addend = A\<rparr> st)
        | R_PC \<Rightarrow> write (S + A - P)
        | R_GOT \<Rightarrow> write (G + A)
        | R_GOTPC \<Rightarrow> write (GOT + A - P)
        | R_GOTPCREL \<Rightarrow> write (G + GOT + A - P)
        | R_TLSGD \<Rightarrow> write (tlsgd_addr sym + A - P)
        | R_TLSGD_RELAX_LE \<Rightarrow>
            Inr (st\<lparr>buf := store_u32 (loc + 8) (ucast (S - tls_end out + A + 4))
                              (memcpy (loc - 4) tlsgd_relax_insn (buf st))\<rparr>, True)
        | R_TLSLD \<Rightarrow> write (got_tlsld_addr out + A - P)
        | R_TLSLD_RELAX_LE \<Rightarrow>
            Inr (st\<lparr>buf := memcpy (loc - 3) tlsld_relax_insn (buf st)\<rparr>, True)
        | R_DTPOFF \<Rightarrow> write (S + A - tls_begin out)
        | R_TPOFF \<Rightarrow> write (S + A - tls_end out)
        | R_GOTTPOFF \<Rightarrow> write (gottpoff_addr sym + A - P)))"

function apply_alloc_loop ::
  "out_ctx \<Rightarrow> sym_ptr list \<Rightarrow> (sym_ptr \<Rightarrow> Symbol) \<Rightarrow> InputSection \<Rightarrow> u64 \<Rightarrow> nat \<Rightarrow>
   apply_state \<Rightarrow> fault + apply_state" where
  "apply_alloc_loop out symbols symtab isec base i st =
     (if i < length (rels isec) then
        (case apply_rel out symbols symtab isec base i st of
           Inl f \<Rightarrow> Inl f
         | Inr (st', consumed) \<Rightarrow>
             apply_alloc_loop out symbols symtab isec base (if consumed then i + 2 else i + 1) st')
      else Inr st)"
  by pat_completeness auto
termination
  by (relation "measure (\<lambda>(out, symbols, symtab, isec, base, i, st). length (rels isec) - i)")
    auto

declare apply_alloc_loop.simps [simp del]

text \<open>
  \<^verbatim>\<open>apply_reloc_alloc\<close>. \<open>file_reldyn_offset\<close> is the field \<^verbatim>\<open>file->reldyn_offset\<close>.
\<close>

definition apply_reloc_alloc ::
  "out_ctx \<Rightarrow> sym_ptr list \<Rightarrow> (sym_ptr \<Rightarrow> Symbol) \<Rightarrow> u64 \<Rightarrow> InputSection \<Rightarrow> u64 \<Rightarrow>
   apply_state \<Rightarrow> fault + apply_state" where
  "apply_reloc_alloc out symbols symtab file_reldyn_offset isec base st =
     apply_alloc_loop out symbols symtab isec base 0
       (st\<lparr>ref_idx := 0,
           dynrel := (case reldyn_sh_offset out of
                        None \<Rightarrow> None
                      | Some off \<Rightarrow>
                          Some (off + file_reldyn_offset + of_nat (reldyn_offset isec)))\<rparr>)"

text \<open>One turn of the loop of \<^verbatim>\<open>apply_reloc_nonalloc\<close>.\<close>

definition apply_rel_nonalloc ::
  "out_ctx \<Rightarrow> sym_ptr list \<Rightarrow> (sym_ptr \<Rightarrow> Symbol) \<Rightarrow> InputSection \<Rightarrow> u64 \<Rightarrow> nat \<Rightarrow>
   apply_state \<Rightarrow> fault + apply_state" where
  "apply_rel_nonalloc out symbols symtab isec base i st0 =
    (let rel = rels isec ! i in
     if \<not> unat (r_sym rel) < length symbols then Inl Out_of_bounds
     else
      let sym = symtab (symbols ! unat (r_sym rel)) in
      if \<not> sym_file sym \<or> is_placeholder sym then
        Inr (Error (Undefined_symbol (sym_name sym)) st0)
      else if \<not> i < length (has_fragments isec) then Inl Out_of_bounds
      else if has_fragments isec ! i \<and> \<not> ref_idx st0 < length (rel_fragments isec)
      then Inl Out_of_bounds
      else
       let ref = (if has_fragments isec ! i then Some (rel_fragments isec ! ref_idx st0)
                  else None);
           st = (if has_fragments isec ! i then st0\<lparr>ref_idx := ref_idx st0 + 1\<rparr> else st0);
           loc = base + r_offset rel;
           abs = (let val = (case ref of
                               Some r \<Rightarrow> frag_addr (frag r)
                             | None \<Rightarrow> sym_addr sym)
                  in write_checked sym (r_type rel) loc val st);
           invalid = Inr (Error (Invalid_relocation_nonalloc (r_type rel)) st)
       in
        (case r_type rel of
           R_X86_64_NONE \<Rightarrow> Inr st
         | R_X86_64_8 \<Rightarrow> abs
         | R_X86_64_16 \<Rightarrow> abs
         | R_X86_64_32 \<Rightarrow> abs
         | R_X86_64_32S \<Rightarrow> abs
         | R_X86_64_64 \<Rightarrow> abs
         | R_X86_64_DTPOFF64 \<Rightarrow>
             (case write_val (r_type rel) loc (sym_addr sym + r_addend rel - tls_begin out)
                     (buf st) of
                Inl f \<Rightarrow> Inl f
              | Inr m \<Rightarrow> Inr (st\<lparr>buf := m\<rparr>))
         | R_X86_64_PC8 \<Rightarrow> invalid
         | R_X86_64_PC16 \<Rightarrow> invalid
         | R_X86_64_PC32 \<Rightarrow> invalid
         | R_X86_64_PC64 \<Rightarrow> invalid
         | R_X86_64_GOT32 \<Rightarrow> invalid
         | R_X86_64_GOTPC32 \<Rightarrow> invalid
         | R_X86_64_GOTPCREL \<Rightarrow> invalid
         | R_X86_64_GOTPCRELX \<Rightarrow> invalid
         | R_X86_64_REX_GOTPCRELX \<Rightarrow> invalid
         | R_X86_64_PLT32 \<Rightarrow> invalid
         | R_X86_64_TLSGD \<Rightarrow> invalid
         | R_X86_64_TLSLD \<Rightarrow> invalid
         | R_X86_64_DTPOFF32 \<Rightarrow> invalid
         | R_X86_64_TPOFF32 \<Rightarrow> invalid
         | R_X86_64_TPOFF64 \<Rightarrow> invalid
         | R_X86_64_GOTTPOFF \<Rightarrow> invalid
         | _ \<Rightarrow> Inr (Error (Unknown_relocation (r_type rel)) st)))"

fun apply_nonalloc_loop ::
  "out_ctx \<Rightarrow> sym_ptr list \<Rightarrow> (sym_ptr \<Rightarrow> Symbol) \<Rightarrow> InputSection \<Rightarrow> u64 \<Rightarrow> nat list \<Rightarrow>
   apply_state \<Rightarrow> fault + apply_state" where
  "apply_nonalloc_loop out symbols symtab isec base [] st = Inr st"
| "apply_nonalloc_loop out symbols symtab isec base (i # is) st =
     (case apply_rel_nonalloc out symbols symtab isec base i st of
        Inl f \<Rightarrow> Inl f
      | Inr st' \<Rightarrow> apply_nonalloc_loop out symbols symtab isec base is st')"

definition apply_reloc_nonalloc ::
  "out_ctx \<Rightarrow> sym_ptr list \<Rightarrow> (sym_ptr \<Rightarrow> Symbol) \<Rightarrow> InputSection \<Rightarrow> u64 \<Rightarrow>
   apply_state \<Rightarrow> fault + apply_state" where
  "apply_reloc_nonalloc out symbols symtab isec base st =
     apply_nonalloc_loop out symbols symtab isec base [0..<length (rels isec)]
       (st\<lparr>ref_idx := 0\<rparr>)"

text \<open>\<^verbatim>\<open>InputSection::copy_buf\<close>.\<close>

definition copy_buf ::
  "out_ctx \<Rightarrow> sym_ptr list \<Rightarrow> (sym_ptr \<Rightarrow> Symbol) \<Rightarrow> u64 \<Rightarrow> InputSection \<Rightarrow>
   apply_state \<Rightarrow> fault + apply_state" where
  "copy_buf out symbols symtab file_reldyn_offset isec st =
     (if sh_type (shdr isec) = SHT_NOBITS \<or> sh_size (shdr isec) = 0 then Inr st
      else
        let base = out_sh_offset isec + offset isec;
            st1 = st\<lparr>buf := memcpy base (contents isec) (buf st)\<rparr>
        in if sh_flags (shdr isec) AND SHF_ALLOC \<noteq> 0
           then apply_reloc_alloc out symbols symtab file_reldyn_offset isec base st1
           else apply_reloc_nonalloc out symbols symtab isec base st1)"

text \<open>
  The spec's words for a valid C identifier: a non-empty name whose first character is a
  letter or an underscore and whose other characters are letters, digits or underscores.
\<close>

definition valid_c_identifier :: "string \<Rightarrow> bool" where
  "valid_c_identifier s =
     (s \<noteq> [] \<and> (isalpha (hd s) \<or> hd s = CHR ''_'') \<and>
      list_all (\<lambda>c. isalnum c \<or> c = CHR ''_'') (tl s))"

section \<open>Observers of the model\<close>

text \<open>
  The definitions of this section are not code of the linker. They say what the claims
  speak of: how a little-endian machine reads a value back from the buffer, the write
  width of a relocation type, and the ranges of the psABI.
\<close>

text \<open>The value of the \<open>n\<close> bytes at \<open>loc\<close>, least significant byte first.\<close>

primrec load_le :: "nat \<Rightarrow> u64 \<Rightarrow> memory \<Rightarrow> u64" where
  "load_le 0 loc m = 0"
| "load_le (Suc n) loc m = ucast (m loc) OR push_bit 8 (load_le n (loc + 1) m)"

text \<open>The spec's write widths, in bytes: NONE writes nothing.\<close>

definition write_width :: "r_x86_64 \<Rightarrow> nat" where
  "write_width ty =
     (if ty \<in> {R_X86_64_8, R_X86_64_PC8} then 1
      else if ty \<in> {R_X86_64_16, R_X86_64_PC16} then 2
      else if ty \<in> {R_X86_64_64, R_X86_64_PC64, R_X86_64_TPOFF64, R_X86_64_DTPOFF64} then 8
      else if ty = R_X86_64_NONE then 0
      else 4)"

definition fits_unsigned :: "nat \<Rightarrow> u64 \<Rightarrow> bool" where
  "fits_unsigned n val = (uint val < 2 ^ n)"

definition fits_signed :: "nat \<Rightarrow> u64 \<Rightarrow> bool" where
  "fits_signed n val = (- (2 ^ (n - 1)) \<le> sint val \<and> sint val < 2 ^ (n - 1))"

text \<open>
  The spec's range of a relocation type: unsigned 8-bit for 8, signed 8-bit for PC8,
  unsigned 16-bit for 16, signed 16-bit for PC16, unsigned 32-bit for 32, no bound for
  the 64-bit types and NONE, signed 32-bit for every other type.
\<close>

definition psabi_range_ok :: "r_x86_64 \<Rightarrow> u64 \<Rightarrow> bool" where
  "psabi_range_ok ty val =
     (if ty = R_X86_64_8 then fits_unsigned 8 val
      else if ty = R_X86_64_PC8 then fits_signed 8 val
      else if ty = R_X86_64_16 then fits_unsigned 16 val
      else if ty = R_X86_64_PC16 then fits_signed 16 val
      else if ty = R_X86_64_32 then fits_unsigned 32 val
      else if ty \<in> {R_X86_64_NONE, R_X86_64_64, R_X86_64_PC64, R_X86_64_TPOFF64,
                      R_X86_64_DTPOFF64} then True
      else fits_signed 32 val)"

text \<open>The relocation types that \<^verbatim>\<open>overflow_check\<close> and \<^verbatim>\<open>write_val\<close> have a case for.\<close>

definition known_type :: "r_x86_64 \<Rightarrow> bool" where
  "known_type ty =
     (case ty of R_X86_64_RELATIVE \<Rightarrow> False | R_X86_64_UNKNOWN _ \<Rightarrow> False | _ \<Rightarrow> True)"

text \<open>
  A symbol is defined when neither scanner nor applier reports it as an undefined
  symbol: it has a file and is no placeholder.
\<close>

definition defined_sym :: "Symbol \<Rightarrow> bool" where
  "defined_sym sy = (sym_file sy \<and> \<not> is_placeholder sy)"

text \<open>
  The spec's quantities of a relocation in an SHF_ALLOC section. \<open>ref\<close> is the fragment
  reference of the relocation, if it targets a fragment.
\<close>

definition fragment_ref :: "InputSection \<Rightarrow> nat \<Rightarrow> nat \<Rightarrow> SectionFragmentRef option" where
  "fragment_ref isec i k = (if has_fragments isec ! i then Some (rel_fragments isec ! k) else None)"

definition reloc_S :: "Symbol \<Rightarrow> SectionFragmentRef option \<Rightarrow> u64" where
  "reloc_S sy ref =
     (case ref of
        Some r \<Rightarrow> frag_addr (frag r)
      | None \<Rightarrow> (if plt_idx sy = - 1 then sym_addr sy else plt_addr sy))"

definition reloc_A :: "ElfRela \<Rightarrow> SectionFragmentRef option \<Rightarrow> u64" where
  "reloc_A rel ref = (case ref of Some r \<Rightarrow> addend r | None \<Rightarrow> r_addend rel)"

definition reloc_P :: "InputSection \<Rightarrow> ElfRela \<Rightarrow> u64" where
  "reloc_P isec rel = out_sh_addr isec + offset isec + r_offset rel"

text \<open>The spec's formulas by kind, for the kinds that write a value.\<close>

definition reloc_value ::
  "out_ctx \<Rightarrow> InputSection \<Rightarrow> Symbol \<Rightarrow> SectionFragmentRef option \<Rightarrow> ElfRela \<Rightarrow> rel_type \<Rightarrow> u64"
  where
  "reloc_value out isec sy ref rel kind =
     (let S = reloc_S sy ref; A = reloc_A rel ref; P = reloc_P isec rel;
          GOT = got_sh_addr out; G = got_addr sy - GOT
      in if kind = R_ABS \<or> kind = R_ABS_DYN then S + A
         else if kind = R_PC then S + A - P
         else if kind = R_GOT then G + A
         else if kind = R_GOTPC then GOT + A - P
         else if kind = R_GOTPCREL then G + GOT + A - P
         else if kind = R_TLSGD then tlsgd_addr sy + A - P
         else if kind = R_TLSLD then got_tlsld_addr out + A - P
         else if kind = R_DTPOFF then S + A - tls_begin out
         else if kind = R_TPOFF then S + A - tls_end out
         else if kind = R_GOTTPOFF then gottpoff_addr sy + A - P
         else 0)"

text \<open>The kinds whose case in \<^verbatim>\<open>apply_reloc_alloc\<close> calls the lambda \<^verbatim>\<open>write\<close>.\<close>

definition writes_value :: "rel_type \<Rightarrow> bool" where
  "writes_value kind =
     (kind \<in> {R_ABS, R_ABS_DYN, R_PC, R_GOT, R_GOTPC, R_GOTPCREL, R_TLSGD, R_TLSLD, R_DTPOFF,
               R_TPOFF, R_GOTTPOFF})"

text \<open>
  The indices that one turn of the applier uses are within their vectors (beyond them
  the C++ has no defined result).
\<close>

definition rel_in_bounds :: "sym_ptr list \<Rightarrow> InputSection \<Rightarrow> nat \<Rightarrow> nat \<Rightarrow> bool" where
  "rel_in_bounds symbols isec i k =
     (unat (r_sym (rels isec ! i)) < length symbols \<and> i < length (has_fragments isec) \<and>
      (has_fragments isec ! i \<longrightarrow> k < length (rel_fragments isec)))"






section \<open>Scanning and applying over the files\<close>

text \<open>
  Modelled from the spec: \<^verbatim>\<open>ObjectFile\<close> is declared in the absent \<^verbatim>\<open>mold.h\<close>, and the loops
  that call \<^verbatim>\<open>scan_relocations\<close> and \<^verbatim>\<open>copy_buf\<close> for the sections of the files are in
  the absent \<^verbatim>\<open>main.cc\<close>. By the spec a file owns an ordered sequence of input sections
  with holes, a sequence of symbols and the counter \<^verbatim>\<open>num_dynrel\<close>; the phases are ordered,
  each section is scanned once and later copied once. The sections of a file are
  visited one after the other, the files one after the other.
\<close>

record ObjectFile =
  file_sections :: "InputSection option list"
  file_symbols :: "sym_ptr list"
  file_num_dynrel :: nat
  file_reldyn_offset :: u64

fun scan_sections ::
  "config \<Rightarrow> sym_ptr list \<Rightarrow> InputSection option list \<Rightarrow> scan_env \<Rightarrow>
   fault + (InputSection option list \<times> scan_env)" where
  "scan_sections cfg symbols [] env = Inr ([], env)"
| "scan_sections cfg symbols (None # ss) env =
     (case scan_sections cfg symbols ss env of
        Inl f \<Rightarrow> Inl f
      | Inr (ss', env') \<Rightarrow> Inr (None # ss', env'))"
| "scan_sections cfg symbols (Some isec # ss) env =
     (case scan_relocations cfg symbols (isec, env) of
        Inl f \<Rightarrow> Inl f
      | Inr (isec', env1) \<Rightarrow>
          (case scan_sections cfg symbols ss env1 of
             Inl f \<Rightarrow> Inl f
           | Inr (ss', env') \<Rightarrow> Inr (Some isec' # ss', env')))"

fun scan_files ::
  "config \<Rightarrow> ObjectFile list \<Rightarrow> scan_env \<Rightarrow> fault + (ObjectFile list \<times> scan_env)" where
  "scan_files cfg [] env = Inr ([], env)"
| "scan_files cfg (f # fs) env =
     (case scan_sections cfg (file_symbols f) (file_sections f)
             (env\<lparr>num_dynrel := file_num_dynrel f\<rparr>) of
        Inl e \<Rightarrow> Inl e
      | Inr (ss, env1) \<Rightarrow>
          (case scan_files cfg fs env1 of
             Inl e \<Rightarrow> Inl e
           | Inr (fs', env') \<Rightarrow>
               Inr (f\<lparr>file_sections := ss, file_num_dynrel := num_dynrel env1\<rparr> # fs', env')))"

fun copy_sections ::
  "out_ctx \<Rightarrow> sym_ptr list \<Rightarrow> (sym_ptr \<Rightarrow> Symbol) \<Rightarrow> u64 \<Rightarrow> InputSection option list \<Rightarrow>
   apply_state \<Rightarrow> fault + apply_state" where
  "copy_sections out symbols symtab fro [] st = Inr st"
| "copy_sections out symbols symtab fro (None # ss) st =
     copy_sections out symbols symtab fro ss st"
| "copy_sections out symbols symtab fro (Some isec # ss) st =
     (case copy_buf out symbols symtab fro isec st of
        Inl f \<Rightarrow> Inl f
      | Inr st1 \<Rightarrow> copy_sections out symbols symtab fro ss st1)"

fun copy_files ::
  "out_ctx \<Rightarrow> (sym_ptr \<Rightarrow> Symbol) \<Rightarrow> ObjectFile list \<Rightarrow> apply_state \<Rightarrow> fault + apply_state"
  where
  "copy_files out symtab [] st = Inr st"
| "copy_files out symtab (f # fs) st =
     (case copy_sections out (file_symbols f) symtab (file_reldyn_offset f) (file_sections f) st of
        Inl e \<Rightarrow> Inl e
      | Inr st1 \<Rightarrow> copy_files out symtab fs st1)"

text \<open>
  The words of the claim on dynamic relocations: the kinds that stand for a dynamic
  relocation, the number of relocations of an SHF_ALLOC section classified so, the
  sections of a file that are present, and the sections that \<^verbatim>\<open>copy_buf\<close> leaves without
  applying their relocations.
\<close>

definition is_dyn :: "rel_type \<Rightarrow> bool" where
  "is_dyn k = (k = R_DYN \<or> k = R_ABS_DYN)"

definition relaxes :: "rel_type \<Rightarrow> bool" where
  "relaxes k = (k = R_TLSGD_RELAX_LE \<or> k = R_TLSLD_RELAX_LE)"

definition dyn_count :: "InputSection \<Rightarrow> nat" where
  "dyn_count isec =
     (if sh_flags (shdr isec) AND SHF_ALLOC \<noteq> 0 then length (filter is_dyn (rel_types isec))
      else 0)"

definition present :: "'a option list \<Rightarrow> 'a list" where
  "present xs = concat (map (\<lambda>x. case x of None \<Rightarrow> [] | Some y \<Rightarrow> [y]) xs)"

definition copy_skips :: "InputSection \<Rightarrow> bool" where
  "copy_skips isec = (sh_type (shdr isec) = SHT_NOBITS \<or> sh_size (shdr isec) = 0)"

definition file_dyn_count :: "ObjectFile \<Rightarrow> nat" where
  "file_dyn_count f = sum_list (map dyn_count (present (file_sections f)))"

definition file_dyn_skipped :: "ObjectFile \<Rightarrow> nat" where
  "file_dyn_skipped f =
     sum_list (map dyn_count (filter copy_skips (present (file_sections f))))"

text \<open>
  The walk of the applier over the kinds of a section from index \<open>i\<close> skips the index
  after a relaxed kind; \<open>skip_ok\<close> says that no skipped index holds a dynamic kind.
\<close>

function skip_ok :: "rel_type list \<Rightarrow> nat \<Rightarrow> bool" where
  "skip_ok rts i =
     (if i < length rts then
        (if relaxes (rts ! i)
         then (i + 1 < length rts \<longrightarrow> \<not> is_dyn (rts ! (i + 1))) \<and> skip_ok rts (i + 2)
         else skip_ok rts (i + 1))
      else True)"
  by pat_completeness auto
termination
  by (relation "measure (\<lambda>(rts, i). length rts - i)") auto

declare skip_ok.simps [simp del]

text \<open>
  What the applier needs of a scanned SHF_ALLOC section: one kind for each relocation, and
  no dynamic kind at an index that its walk skips.
\<close>

definition scanned_ok :: "InputSection \<Rightarrow> bool" where
  "scanned_ok isec = (sh_flags (shdr isec) AND SHF_ALLOC \<noteq> 0 \<longrightarrow>
            length (rel_types isec) = length (rels isec) \<and> skip_ok (rel_types isec) 0)"

section \<open>ICF: the initial digest\<close>

text \<open>
  Modelled from the spec: the numeric codes of the relocation types, which
  \<^verbatim>\<open>compute_digest\<close> hashes, are constants of the absent ELF header; the numbers are those
  of the x86-64 psABI.
\<close>

definition r_type_code :: "r_x86_64 \<Rightarrow> u32" where
  "r_type_code ty =
     (case ty of
        R_X86_64_NONE \<Rightarrow> 0 | R_X86_64_64 \<Rightarrow> 1 | R_X86_64_PC32 \<Rightarrow> 2 | R_X86_64_GOT32 \<Rightarrow> 3
      | R_X86_64_PLT32 \<Rightarrow> 4 | R_X86_64_RELATIVE \<Rightarrow> 8 | R_X86_64_GOTPCREL \<Rightarrow> 9
      | R_X86_64_32 \<Rightarrow> 10 | R_X86_64_32S \<Rightarrow> 11 | R_X86_64_16 \<Rightarrow> 12 | R_X86_64_PC16 \<Rightarrow> 13
      | R_X86_64_8 \<Rightarrow> 14 | R_X86_64_PC8 \<Rightarrow> 15 | R_X86_64_DTPOFF64 \<Rightarrow> 17
      | R_X86_64_TPOFF64 \<Rightarrow> 18 | R_X86_64_TLSGD \<Rightarrow> 19 | R_X86_64_TLSLD \<Rightarrow> 20
      | R_X86_64_DTPOFF32 \<Rightarrow> 21 | R_X86_64_GOTTPOFF \<Rightarrow> 22 | R_X86_64_TPOFF32 \<Rightarrow> 23
      | R_X86_64_PC64 \<Rightarrow> 24 | R_X86_64_GOTPC32 \<Rightarrow> 26 | R_X86_64_GOTPCRELX \<Rightarrow> 41
      | R_X86_64_REX_GOTPCRELX \<Rightarrow> 42 | R_X86_64_UNKNOWN w \<Rightarrow> w)"

text \<open>
  The SHA-256 context is the sequence of the bytes absorbed so far: \<^verbatim>\<open>SHA256_Init\<close> is the
  empty sequence, \<^verbatim>\<open>SHA256_Update\<close> appends. SHA-256 itself belongs to OpenSSL; it is the
  parameter \<open>sha256\<close> of \<open>digest_final\<close>.
\<close>

type_synonym sha_ctx = "u8 list"

definition HASH_SIZE :: nat where "HASH_SIZE = 16"

definition digest_final :: "(u8 list \<Rightarrow> u8 list) \<Rightarrow> sha_ctx \<Rightarrow> u8 list" where
  "digest_final sha256 ctx = take HASH_SIZE (sha256 ctx)"

definition hash_i64 :: "i64 \<Rightarrow> sha_ctx \<Rightarrow> sha_ctx" where
  "hash_i64 val ctx = ctx @ le_bytes 8 val"

definition hash_string :: "u8 list \<Rightarrow> sha_ctx \<Rightarrow> sha_ctx" where
  "hash_string str ctx = hash_i64 (of_nat (length str)) ctx @ str"

definition hash_symbol :: "Symbol \<Rightarrow> sha_ctx \<Rightarrow> sha_ctx" where
  "hash_symbol sy ctx =
     hash_i64 (sym_value sy)
       (case sym_frag sy of
          Some fr \<Rightarrow> hash_string (frag_data fr) (hash_i64 2 ctx)
        | None \<Rightarrow> (if input_section sy = None then hash_i64 3 ctx else hash_i64 4 ctx))"

text \<open>The inner loop over the relocations of an FDE, the first one left out by the caller.\<close>

fun hash_fde_rels :: "(sym_ptr \<Rightarrow> Symbol) \<Rightarrow> EhReloc list \<Rightarrow> sha_ctx \<Rightarrow> sha_ctx" where
  "hash_fde_rels symtab [] ctx = ctx"
| "hash_fde_rels symtab (rel # rs) ctx =
     hash_fde_rels symtab rs
       (hash_i64 (eh_addend rel)
         (hash_i64 (ucast (eh_offset rel))
           (hash_i64 (ucast (eh_type rel))
             (hash_symbol (symtab (eh_sym rel)) ctx))))"

text \<open>
  The body of the loop over the FDEs. \<^verbatim>\<open>substr(8)\<close> throws when the contents have fewer
  than 8 bytes; \<^verbatim>\<open>subspan(1)\<close> of an empty span is undefined.
\<close>

definition hash_fde :: "(sym_ptr \<Rightarrow> Symbol) \<Rightarrow> FdeRecord \<Rightarrow> sha_ctx \<Rightarrow> fault + sha_ctx" where
  "hash_fde symtab fde ctx =
     (let ctx1 = hash_string (take 4 (fde_contents fde)) ctx in
      if length (fde_contents fde) < 8 then Inl Substr_out_of_range
      else
        let ctx2 = hash_string (drop 8 (fde_contents fde)) ctx1;
            ctx3 = hash_i64 (of_nat (length (fde_rels fde))) ctx2
        in if fde_rels fde = [] then Inl Out_of_bounds
           else Inr (hash_fde_rels symtab (tl (fde_rels fde)) ctx3))"

fun hash_fdes :: "(sym_ptr \<Rightarrow> Symbol) \<Rightarrow> FdeRecord list \<Rightarrow> sha_ctx \<Rightarrow> fault + sha_ctx" where
  "hash_fdes symtab [] ctx = Inr ctx"
| "hash_fdes symtab (fde # fs) ctx =
     (case hash_fde symtab fde ctx of
        Inl f \<Rightarrow> Inl f
      | Inr ctx' \<Rightarrow> hash_fdes symtab fs ctx')"

text \<open>
  The loop over the relocations of the section, from index \<open>i\<close>; the state is the local
  variable \<^verbatim>\<open>ref_idx\<close> and the context.
\<close>

function hash_rels ::
  "sym_ptr list \<Rightarrow> (sym_ptr \<Rightarrow> Symbol) \<Rightarrow> InputSection \<Rightarrow> nat \<Rightarrow> nat \<times> sha_ctx \<Rightarrow>
   fault + nat \<times> sha_ctx" where
  "hash_rels symbols symtab isec i st =
     (if i < length (rels isec) then
        (let rel = rels isec ! i;
             ctx = hash_i64 (r_addend rel)
                     (hash_i64 (ucast (r_type_code (r_type rel)))
                       (hash_i64 (r_offset rel) (snd st)))
         in if \<not> i < length (has_fragments isec) then Inl Out_of_bounds
            else if has_fragments isec ! i then
              (if \<not> fst st < length (rel_fragments isec) then Inl Out_of_bounds
               else
                 let ref = rel_fragments isec ! fst st in
                 hash_rels symbols symtab isec (i + 1)
                   (fst st + 1,
                    hash_string (frag_data (frag ref))
                      (hash_i64 (addend ref) (hash_i64 1 ctx))))
            else if \<not> unat (r_sym rel) < length symbols then Inl Out_of_bounds
            else
              hash_rels symbols symtab isec (i + 1)
                (fst st, hash_symbol (symtab (symbols ! unat (r_sym rel))) ctx))
      else Inr st)"
  by pat_completeness auto
termination
  by (relation "measure (\<lambda>(symbols, symtab, isec, i, st). length (rels isec) - i)") auto

declare hash_rels.simps [simp del]

text \<open>\<^verbatim>\<open>compute_digest\<close>, for a section of a file whose vector of symbols is \<open>symbols\<close>.\<close>

definition compute_digest ::
  "(u8 list \<Rightarrow> u8 list) \<Rightarrow> sym_ptr list \<Rightarrow> (sym_ptr \<Rightarrow> Symbol) \<Rightarrow> InputSection \<Rightarrow>
   fault + u8 list" where
  "compute_digest sha256 symbols symtab isec =
     (let ctx0 = hash_i64 (of_nat (length (rels isec)))
                   (hash_i64 (of_nat (length (fdes isec)))
                     (hash_i64 (sh_flags (shdr isec))
                       (hash_string (contents isec) [])))
      in case hash_fdes symtab (fdes isec) ctx0 of
           Inl f \<Rightarrow> Inl f
         | Inr ctx1 \<Rightarrow>
             (case hash_rels symbols symtab isec 0 (0, ctx1) of
                Inl f \<Rightarrow> Inl f
              | Inr st \<Rightarrow> Inr (digest_final sha256 (snd st))))"

text \<open>
  The spec's words for what the digest absorbs. A number is 8 bytes; a string is its
  length, then its bytes.
\<close>

definition i64_bytes :: "i64 \<Rightarrow> u8 list" where
  "i64_bytes v = le_bytes 8 v"

definition string_bytes :: "u8 list \<Rightarrow> u8 list" where
  "string_bytes str = i64_bytes (of_nat (length str)) @ str"

text \<open>
  The symbol digest: tag 2 and the bytes of the fragment if the symbol refers to a
  fragment, tag 3 if it has no input section, tag 4 otherwise; then the value.
\<close>

definition symbol_digest :: "Symbol \<Rightarrow> u8 list" where
  "symbol_digest sy =
     (case sym_frag sy of
        Some fr \<Rightarrow> i64_bytes 2 @ string_bytes (frag_data fr)
      | None \<Rightarrow> (if input_section sy = None then i64_bytes 3 else i64_bytes 4)) @
     i64_bytes (sym_value sy)"

text \<open>
  For an FDE: the bytes [0,4) and [8,end) of its contents, each with its length; the
  number of its relocations; for each relocation but the first the symbol digest, the
  type, the offset and the addend.
\<close>

definition fde_digest :: "(sym_ptr \<Rightarrow> Symbol) \<Rightarrow> FdeRecord \<Rightarrow> u8 list" where
  "fde_digest symtab fde =
     string_bytes (take 4 (fde_contents fde)) @ string_bytes (drop 8 (fde_contents fde)) @
     i64_bytes (of_nat (length (fde_rels fde))) @
     concat (map (\<lambda>rel. symbol_digest (symtab (eh_sym rel)) @ i64_bytes (ucast (eh_type rel)) @
                        i64_bytes (ucast (eh_offset rel)) @ i64_bytes (eh_addend rel))
                 (tl (fde_rels fde)))"

text \<open>
  For the relocation at index \<open>i\<close>: offset, type and addend; then tag 1, the addend of
  the fragment reference and the bytes of the fragment if the relocation targets a
  fragment, else the symbol digest. The fragment reference of the relocation is found by
  counting the relocations before it that target a fragment.
\<close>

definition rel_digest :: "sym_ptr list \<Rightarrow> (sym_ptr \<Rightarrow> Symbol) \<Rightarrow> InputSection \<Rightarrow> nat \<Rightarrow> u8 list" where
  "rel_digest symbols symtab isec i =
     (let rel = rels isec ! i in
      i64_bytes (r_offset rel) @ i64_bytes (ucast (r_type_code (r_type rel))) @
      i64_bytes (r_addend rel) @
      (if has_fragments isec ! i then
         (let ref = rel_fragments isec ! length (filter id (take i (has_fragments isec)))
          in i64_bytes 1 @ i64_bytes (addend ref) @ string_bytes (frag_data (frag ref)))
       else symbol_digest (symtab (symbols ! unat (r_sym rel)))))"

definition digest_input :: "sym_ptr list \<Rightarrow> (sym_ptr \<Rightarrow> Symbol) \<Rightarrow> InputSection \<Rightarrow> u8 list" where
  "digest_input symbols symtab isec =
     string_bytes (contents isec) @ i64_bytes (sh_flags (shdr isec)) @
     i64_bytes (of_nat (length (fdes isec))) @ i64_bytes (of_nat (length (rels isec))) @
     concat (map (fde_digest symtab) (fdes isec)) @
     concat (map (rel_digest symbols symtab isec) [0..<length (rels isec)])"

text \<open>
  The section can be digested: every FDE has at least 8 bytes and a relocation, and the
  indices of the loop over the relocations are within their vectors.
\<close>

definition digestible :: "sym_ptr list \<Rightarrow> InputSection \<Rightarrow> bool" where
  "digestible symbols isec =
     ((\<forall>fde \<in> set (fdes isec). 8 \<le> length (fde_contents fde) \<and> fde_rels fde \<noteq> []) \<and>
      length (rels isec) \<le> length (has_fragments isec) \<and>
      length (filter id (take (length (rels isec)) (has_fragments isec))) \<le>
        length (rel_fragments isec) \<and>
      (\<forall>i < length (rels isec). \<not> has_fragments isec ! i \<longrightarrow>
         unat (r_sym (rels isec ! i)) < length symbols))"

section \<open>ICF: the propagation rounds\<close>

text \<open>
  A digest is an array of \<open>HASH_SIZE\<close> bytes; here it is a value of any type \<open>'d\<close>. In a
  round the SHA-256 context of a node absorbs whole digests, so that it is the list of the
  digests absorbed, and \<open>sha\<close> stands for \<^verbatim>\<open>digest_final\<close> of that context: the truncated
  SHA-256 of the concatenation.

  What \<^verbatim>\<open>gather_sections\<close> hands to the rounds: the number of eligible sections
  (\<^verbatim>\<open>sections.size()\<close>) and the edges in CSR form.
\<close>

record icf_graph =
  num_sections :: nat
  edge_indices :: "nat list"
  edges :: "nat list"

text \<open>The two slots of digests and the index of the current slot.\<close>

record 'd icf_state =
  digests :: "'d list list"
  slot :: nat

text \<open>
  The lambda \<^verbatim>\<open>count_num_classes\<close> on the digests of the current slot. The bound
  \<^verbatim>\<open>sections.size() - 1\<close> is computed in \<^verbatim>\<open>i64\<close>: for no section the loop does not run, as
  with the truncating subtraction of the naturals.
\<close>

definition count_num_classes :: "nat \<Rightarrow> 'd list \<Rightarrow> fault + nat" where
  "count_num_classes n ds =
     (if n \<le> 1 \<or> n \<le> length ds
      then Inr (length (filter (\<lambda>i. ds ! i \<noteq> ds ! (i + 1)) [0..<n - 1]))
      else Inl Out_of_bounds)"

text \<open>The digests that the context of node \<open>i\<close> absorbs in a round.\<close>

definition node_end :: "icf_graph \<Rightarrow> nat \<Rightarrow> nat" where
  "node_end g i =
     (if i + 1 = num_sections g then length (edges g) else edge_indices g ! (i + 1))"

definition node_input :: "icf_graph \<Rightarrow> 'd list \<Rightarrow> nat \<Rightarrow> 'd list" where
  "node_input g ds i =
     ds ! i # map (\<lambda>j. ds ! (edges g ! j)) [edge_indices g ! i..<node_end g i]"

text \<open>The body of the parallel loop of a round: the new digest of node \<open>i\<close>.\<close>

definition node_digest :: "('d list \<Rightarrow> 'd) \<Rightarrow> icf_graph \<Rightarrow> 'd list \<Rightarrow> nat \<Rightarrow> fault + 'd" where
  "node_digest sha g ds i =
     (if \<not> i < length ds \<or> \<not> i < length (edge_indices g) then Inl Out_of_bounds
      else if i + 1 \<noteq> num_sections g \<and> \<not> i + 1 < length (edge_indices g)
      then Inl Out_of_bounds
      else if \<not> list_all (\<lambda>j. j < length (edges g) \<and> edges g ! j < length ds)
                    [edge_indices g ! i..<node_end g i]
      then Inl Out_of_bounds
      else Inr (sha (node_input g ds i)))"

text \<open>
  The parallel loop over the nodes. Every turn reads the current slot and writes one
  element of the other slot, so that the turns can be taken in the order of the indices.
\<close>

fun round_loop ::
  "('d list \<Rightarrow> 'd) \<Rightarrow> icf_graph \<Rightarrow> nat list \<Rightarrow> 'd list \<Rightarrow> 'd list \<Rightarrow> fault + 'd list" where
  "round_loop sha g [] cur other = Inr other"
| "round_loop sha g (i # is) cur other =
     (case node_digest sha g cur i of
        Inl f \<Rightarrow> Inl f
      | Inr d \<Rightarrow>
          (if i < length other then round_loop sha g is cur (other[i := d])
           else Inl Out_of_bounds))"

text \<open>One round: the parallel loop, then \<^verbatim>\<open>slot ^= 1\<close>.\<close>

definition propagate_round ::
  "('d list \<Rightarrow> 'd) \<Rightarrow> icf_graph \<Rightarrow> 'd icf_state \<Rightarrow> fault + 'd icf_state" where
  "propagate_round sha g st =
     (case round_loop sha g [0..<num_sections g] (digests st ! slot st)
             (digests st ! (slot st XOR 1)) of
        Inl f \<Rightarrow> Inl f
      | Inr other \<Rightarrow>
          Inr (st\<lparr>digests := (digests st)[slot st XOR 1 := other], slot := slot st XOR 1\<rparr>))"

text \<open>
  The loop \<^verbatim>\<open>for (;;)\<close>. It may run forever: its value is \<open>None\<close> then, \<open>Some\<close> of a fault
  or of the final state otherwise.
\<close>

partial_function (option) propagate_loop ::
  "('d list \<Rightarrow> 'd) \<Rightarrow> icf_graph \<Rightarrow> 'd icf_state \<Rightarrow> nat \<Rightarrow> (fault + 'd icf_state) option" where
  "propagate_loop sha g st num_classes =
     (case propagate_round sha g st of
        Inl f \<Rightarrow> Some (Inl f)
      | Inr st' \<Rightarrow>
          (case count_num_classes (num_sections g) (digests st' ! slot st') of
             Inl f \<Rightarrow> Some (Inl f)
           | Inr n \<Rightarrow>
               (if n = num_classes then Some (Inr st')
                else propagate_loop sha g st' n)))"

text \<open>
  The part of \<^verbatim>\<open>icf_sections\<close> from the two slots to the end of the rounds, for the
  digests \<open>digests0\<close> that \<^verbatim>\<open>gather_sections\<close> returns.
\<close>

definition propagate ::
  "('d list \<Rightarrow> 'd) \<Rightarrow> icf_graph \<Rightarrow> 'd list \<Rightarrow> (fault + 'd icf_state) option" where
  "propagate sha g digests0 =
     (let st = \<lparr>digests = [digests0, digests0], slot = 0\<rparr> in
      case count_num_classes (num_sections g) (digests st ! slot st) of
        Inl f \<Rightarrow> Some (Inl f)
      | Inr num_classes \<Rightarrow> propagate_loop sha g st num_classes)"

text \<open>
  The words of the claim on the rounds. \<open>num_classes\<close> is the number of adjacent index
  pairs of the eligible sections whose digests differ; \<open>next_digests\<close> gives the digests
  of the current slot after one more round, \<open>digests_after k\<close> after \<open>k\<close> rounds. The graph
  is well formed when the rounds index within the vectors. There is no collision in a
  round when two nodes with the same new digest absorbed the same digests.
\<close>

definition num_classes_of :: "nat \<Rightarrow> 'd list \<Rightarrow> nat" where
  "num_classes_of n ds = length (filter (\<lambda>i. ds ! i \<noteq> ds ! (i + 1)) [0..<n - 1])"

definition next_digests :: "('d list \<Rightarrow> 'd) \<Rightarrow> icf_graph \<Rightarrow> 'd list \<Rightarrow> 'd list" where
  "next_digests sha g ds =
     map (\<lambda>i. sha (node_input g ds i)) [0..<num_sections g] @ drop (num_sections g) ds"

definition digests_after :: "('d list \<Rightarrow> 'd) \<Rightarrow> icf_graph \<Rightarrow> 'd list \<Rightarrow> nat \<Rightarrow> 'd list" where
  "digests_after sha g ds k = (next_digests sha g ^^ k) ds"

definition graph_ok :: "icf_graph \<Rightarrow> nat \<Rightarrow> bool" where
  "graph_ok g len =
     (num_sections g \<le> len \<and> length (edge_indices g) = num_sections g \<and>
      (\<forall>i < num_sections g.
         \<forall>j \<in> {edge_indices g ! i..<node_end g i}. j < length (edges g) \<and> edges g ! j < len))"

definition no_collision :: "('d list \<Rightarrow> 'd) \<Rightarrow> icf_graph \<Rightarrow> 'd list \<Rightarrow> bool" where
  "no_collision sha g ds =
     (\<forall>i < num_sections g. \<forall>j < num_sections g.
        sha (node_input g ds i) = sha (node_input g ds j) \<longrightarrow>
        node_input g ds i = node_input g ds j)"

text \<open>The two slots hold vectors of one length that agree beyond the eligible sections.\<close>

definition slots_ok :: "icf_graph \<Rightarrow> 'd icf_state \<Rightarrow> bool" where
  "slots_ok g st =
     (length (digests st) = 2 \<and> slot st < 2 \<and>
      length (digests st ! 0) = length (digests st ! 1) \<and>
      drop (num_sections g) (digests st ! 0) = drop (num_sections g) (digests st ! 1) \<and>
      graph_ok g (length (digests st ! 0)))"

section \<open>ICF: the merge\<close>

text \<open>
  The struct \<^verbatim>\<open>Entry\<close> of the merge: a section, by its address, and its final digest.
  The fields \<^verbatim>\<open>leader\<close> of the sections and \<^verbatim>\<open>input_section\<close> of the symbols are two
  stores, from the address of a section to its leader and from the address of a symbol to
  its section (\<open>None\<close> is the null pointer): the merge writes through pointers that
  several entries and several files may share.
\<close>

record 'd icf_entry =
  ent_isec :: isec_ptr
  ent_digest :: 'd

type_synonym leader_store = "isec_ptr \<Rightarrow> isec_ptr option"
type_synonym symbol_store = "sym_ptr \<Rightarrow> isec_ptr option"

text \<open>\<^verbatim>\<open>entries[i] = {sections[i], digests[slot][i]}\<close> for every eligible section.\<close>

definition make_entries :: "isec_ptr list \<Rightarrow> 'd list \<Rightarrow> fault + 'd icf_entry list" where
  "make_entries sections ds =
     (if length sections \<le> length ds
      then Inr (map (\<lambda>i. \<lparr>ent_isec = sections ! i, ent_digest = ds ! i\<rparr>) [0..<length sections])
      else Inl Out_of_bounds)"

text \<open>
  The comparator of the sort: by digest, then by priority. \<open>priority\<close> gives what
  \<^verbatim>\<open>get_priority()\<close> returns for a section.
\<close>

definition entry_less :: "(isec_ptr \<Rightarrow> int) \<Rightarrow> ('d::linorder) icf_entry \<Rightarrow> 'd icf_entry \<Rightarrow> bool" where
  "entry_less priority a b =
     (if ent_digest a \<noteq> ent_digest b then ent_digest a < ent_digest b
      else priority (ent_isec a) < priority (ent_isec b))"

text \<open>The \<^verbatim>\<open>while\<close> loop that gives the sections of a run their leader.\<close>

function set_leaders_run ::
  "'d icf_entry list \<Rightarrow> nat \<Rightarrow> nat \<Rightarrow> leader_store \<Rightarrow> leader_store" where
  "set_leaders_run es i j ldr =
     (if j < length es \<and> ent_digest (es ! i) = ent_digest (es ! j)
      then set_leaders_run es i (j + 1) (ldr(ent_isec (es ! j) := Some (ent_isec (es ! i))))
      else ldr)"
  by pat_completeness auto
termination
  by (relation "measure (\<lambda>(es, i, j, ldr). length es - j)") auto

declare set_leaders_run.simps [simp del]

text \<open>The body of the parallel loop over the entries, and the loop up to \<^verbatim>\<open>size() - 1\<close>.\<close>

definition leader_turn :: "'d icf_entry list \<Rightarrow> nat \<Rightarrow> leader_store \<Rightarrow> leader_store" where
  "leader_turn es i ldr =
     (if i = 0 \<or> ent_digest (es ! (i - 1)) \<noteq> ent_digest (es ! i)
      then set_leaders_run es i (i + 1) ldr
      else ldr)"

definition set_leaders :: "'d icf_entry list \<Rightarrow> leader_store \<Rightarrow> leader_store" where
  "set_leaders es ldr = fold (leader_turn es) [0..<length es - 1] ldr"

text \<open>
  The re-assignment of the symbols: for every file, for every symbol of its vector of
  symbols.
\<close>

definition reassign_symbol :: "leader_store \<Rightarrow> sym_ptr \<Rightarrow> symbol_store \<Rightarrow> symbol_store" where
  "reassign_symbol ldr p sis =
     (case sis p of
        None \<Rightarrow> sis
      | Some s \<Rightarrow> (case ldr s of None \<Rightarrow> sis | Some l \<Rightarrow> sis(p := Some l)))"

definition reassign_symbols ::
  "leader_store \<Rightarrow> sym_ptr list list \<Rightarrow> symbol_store \<Rightarrow> symbol_store" where
  "reassign_symbols ldr files sis = fold (\<lambda>symbols. fold (reassign_symbol ldr) symbols) files sis"

text \<open>
  The merge of \<^verbatim>\<open>icf_sections\<close> up to the re-assignment of the symbols. The sort
  \<^verbatim>\<open>tbb::parallel_sort\<close> belongs to a library: it is the parameter \<open>sort_fn\<close>, which takes
  the comparator. \<open>files\<close> holds the vector of symbols of every file of \<^verbatim>\<open>out::objs\<close>.
\<close>

definition icf_merge ::
  "(('d icf_entry \<Rightarrow> 'd icf_entry \<Rightarrow> bool) \<Rightarrow> 'd icf_entry list \<Rightarrow> 'd icf_entry list) \<Rightarrow>
   (isec_ptr \<Rightarrow> int) \<Rightarrow> isec_ptr list \<Rightarrow> ('d::linorder) list \<Rightarrow> sym_ptr list list \<Rightarrow>
   leader_store \<times> symbol_store \<Rightarrow> fault + 'd icf_entry list \<times> leader_store \<times> symbol_store" where
  "icf_merge sort_fn priority sections ds files st =
     (case make_entries sections ds of
        Inl f \<Rightarrow> Inl f
      | Inr entries \<Rightarrow>
          (let es = sort_fn (entry_less priority) entries;
               ldr = set_leaders es (fst st);
               sis = reassign_symbols ldr files (snd st)
           in Inr (es, ldr, sis)))"

text \<open>
  An insertion sort for a comparator, to run the merge on concrete inputs.
\<close>

fun insert_by :: "('a \<Rightarrow> 'a \<Rightarrow> bool) \<Rightarrow> 'a \<Rightarrow> 'a list \<Rightarrow> 'a list" where
  "insert_by cmp x [] = [x]"
| "insert_by cmp x (y # ys) = (if cmp y x then y # insert_by cmp x ys else x # y # ys)"

definition sort_by :: "('a \<Rightarrow> 'a \<Rightarrow> bool) \<Rightarrow> 'a list \<Rightarrow> 'a list" where
  "sort_by cmp xs = foldr (insert_by cmp) xs []"

text \<open>
  The words of the claim on the merge: the first index of the maximal run of equal
  digests that holds the index \<open>j\<close>.
\<close>

fun run_start :: "'d icf_entry list \<Rightarrow> nat \<Rightarrow> nat" where
  "run_start es 0 = 0"
| "run_start es (Suc j) =
     (if ent_digest (es ! j) = ent_digest (es ! Suc j) then run_start es j else Suc j)"

text \<open>An index is the start of a run when it is 0 or the digest before it differs.\<close>

definition is_run_start :: "'d icf_entry list \<Rightarrow> nat \<Rightarrow> bool" where
  "is_run_start es i = (i = 0 \<or> ent_digest (es ! (i - 1)) \<noteq> ent_digest (es ! i))"

text \<open>A symbol is settled when its section, if it has one, has no leader.\<close>

definition settled :: "leader_store \<Rightarrow> symbol_store \<Rightarrow> sym_ptr \<Rightarrow> bool" where
  "settled ldr sis p = (\<forall>s. sis p = Some s \<longrightarrow> ldr s = None)"

text \<open>
  The words of the claim on the merge: every section with its final digest, the list of
  which the sort permutes; and the section that stands for a section after the merge, its
  leader when it has one and itself otherwise.
\<close>

definition paired :: "isec_ptr list \<Rightarrow> 'd list \<Rightarrow> 'd icf_entry list" where
  "paired sections ds =
     map (\<lambda>i. \<lparr>ent_isec = sections ! i, ent_digest = ds ! i\<rparr>) [0..<length sections]"

definition survivor :: "leader_store \<Rightarrow> isec_ptr \<Rightarrow> isec_ptr" where
  "survivor ldr s = (case ldr s of None \<Rightarrow> s | Some l \<Rightarrow> l)"

section \<open>Concrete inputs\<close>


definition sec_text_f :: InputChunk where
  "sec_text_f = \<lparr>shdr = \<lparr>sh_flags = 6, sh_type = 1, sh_size = 16\<rparr>, name = ''.text.f''\<rparr>"


text \<open>
  A defined function symbol \<^verbatim>\<open>foo\<close> at address 0x100, and the same symbol without a
  file. The file's vector of symbols holds the addresses 0 and 1: the symbol 0 is \<^verbatim>\<open>foo\<close>,
  the symbol 1 is undefined.
\<close>

definition ex_sym :: Symbol where
  "ex_sym = \<lparr>sym_name = ''foo'', sym_file = True, is_placeholder = False, is_imported = False,
     is_relative = True, st_type = 2, flags = {}, plt_idx = - 1, dynsym_idx = 0,
     sym_frag = None, input_section = None, sym_value = 0, sym_addr = 0x100, plt_addr = 0,
     got_addr = 0, tlsgd_addr = 0, gottpoff_addr = 0\<rparr>"

definition ex_symtab :: "sym_ptr \<Rightarrow> Symbol" where
  "ex_symtab p = (if p = 1 then ex_sym\<lparr>sym_file := False\<rparr> else ex_sym)"

definition ex_symbols :: "sym_ptr list" where
  "ex_symbols = [0, 1]"

definition ex_cfg :: config where
  "ex_cfg = \<lparr>pie = True, relax = True\<rparr>"

definition ex_env :: scan_env where
  "ex_env = \<lparr>errors = [], num_dynrel = 0, syms = ex_symtab\<rparr>"

definition ex_out :: out_ctx where
  "ex_out = \<lparr>got_sh_addr = 0, got_tlsld_addr = 0, tls_begin = 0, tls_end = 0,
     reldyn_sh_offset = Some 0x1000\<rparr>"

definition ex_st :: apply_state where
  "ex_st = \<lparr>errors = [], buf = (\<lambda>a. 0), reldyn = [], ref_idx = 0, dynrel = None\<rparr>"

text \<open>A section with the given header, name and relocations, as it is before the scan.\<close>

definition ex_section :: "u64 \<Rightarrow> u32 \<Rightarrow> u64 \<Rightarrow> string \<Rightarrow> ElfRela list \<Rightarrow> InputSection" where
  "ex_section fl ty sz nm rs =
     \<lparr>shdr = \<lparr>sh_flags = fl, sh_type = ty, sh_size = sz\<rparr>, name = nm,
      contents = replicate (unat sz) 0, rels = rs, rel_types = [],
      has_fragments = replicate (length rs) False, rel_fragments = [], fdes = [],
      reldyn_offset = 0, offset = 0, out_sh_addr = 0x400000, out_sh_offset = 0\<rparr>"

text \<open>
  A writable data section with one R_X86_64_64 relocation against \<^verbatim>\<open>foo\<close>; the same
  section of type SHT_NOBITS; a code section with a TLSGD relocation against \<^verbatim>\<open>foo\<close>
  followed by a PLT32 relocation; the same with the TLSGD relocation against the undefined
  symbol; a data section with an R_X86_64_8 relocation whose value is 0x100; a section
  of debug information with an R_X86_64_32 relocation of addend 5.
\<close>

definition ex_data :: InputSection where
  "ex_data = ex_section 3 1 16 ''.data''
     [\<lparr>r_offset = 8, r_type = R_X86_64_64, r_sym = 0, r_addend = 0\<rparr>]"

definition ex_nobits :: InputSection where
  "ex_nobits = ex_section 3 8 16 ''.bss''
     [\<lparr>r_offset = 8, r_type = R_X86_64_64, r_sym = 0, r_addend = 0\<rparr>]"

definition ex_tls :: InputSection where
  "ex_tls = ex_section 6 1 32 ''.text''
     [\<lparr>r_offset = 4, r_type = R_X86_64_TLSGD, r_sym = 0, r_addend = 0x7FFFFFFF\<rparr>,
      \<lparr>r_offset = 12, r_type = R_X86_64_PLT32, r_sym = 0, r_addend = - 4\<rparr>]"

definition ex_tls_undef :: InputSection where
  "ex_tls_undef = ex_section 6 1 32 ''.text''
     [\<lparr>r_offset = 4, r_type = R_X86_64_TLSGD, r_sym = 1, r_addend = 0\<rparr>,
      \<lparr>r_offset = 12, r_type = R_X86_64_PLT32, r_sym = 0, r_addend = - 4\<rparr>]"

definition ex_byte :: InputSection where
  "ex_byte = (ex_section 3 1 16 ''.data''
     [\<lparr>r_offset = 0, r_type = R_X86_64_8, r_sym = 0, r_addend = 0\<rparr>])\<lparr>rel_types := [R_ABS]\<rparr>"

definition ex_debug :: InputSection where
  "ex_debug = ex_section 0 1 16 ''.debug_info''
     [\<lparr>r_offset = 0, r_type = R_X86_64_32, r_sym = 0, r_addend = 5\<rparr>]"

text \<open>Two files of one section each: the data section, and the SHT_NOBITS section.\<close>

definition ex_file :: "InputSection \<Rightarrow> ObjectFile" where
  "ex_file isec = \<lparr>file_sections = [None, Some isec], file_symbols = ex_symbols,
     file_num_dynrel = 0, file_reldyn_offset = 0\<rparr>"

text \<open>
  A code section of one byte with one FDE of two relocations and two relocations, the
  first against a fragment, the second against \<^verbatim>\<open>foo\<close>.
\<close>

definition ex_icf :: InputSection where
  "ex_icf = (ex_section 6 1 1 ''.text.f''
     [\<lparr>r_offset = 0, r_type = R_X86_64_PC32, r_sym = 1, r_addend = - 4\<rparr>,
      \<lparr>r_offset = 0, r_type = R_X86_64_PLT32, r_sym = 0, r_addend = - 4\<rparr>])
     \<lparr>has_fragments := [True, False],
      rel_fragments := [\<lparr>frag = \<lparr>frag_data = [104, 105, 0], frag_addr = 0\<rparr>, addend = 0\<rparr>],
      fdes := [\<lparr>fde_contents = [20, 0, 0, 0, 28, 0, 0, 0, 1, 2],
                fde_rels = [\<lparr>eh_sym = 0, eh_type = 2, eh_offset = 8, eh_addend = 0\<rparr>,
                            \<lparr>eh_sym = 0, eh_type = 2, eh_offset = 16, eh_addend = 0\<rparr>]\<rparr>]\<rparr>"

text \<open>
  Three eligible sections: the first refers to the third, the second to itself. The
  first two start with the same digest. A stand-in for the hash on natural numbers, which
  has no collision on the rounds of this graph.
\<close>

definition ex_graph :: icf_graph where
  "ex_graph = \<lparr>num_sections = 3, edge_indices = [0, 1, 2], edges = [2, 1]\<rparr>"

definition ex_sha :: "nat list \<Rightarrow> nat" where
  "ex_sha xs = foldr (\<lambda>x acc. x + 10 * acc) xs 0"

text \<open>
  Three eligible sections at the addresses 10, 11 and 12, the first and the third with
  the same final digest; two files; the symbol 0 is defined in section 12, the symbol 1 in
  section 10, the symbol 2 in no section.
\<close>

definition ex_sis :: symbol_store where
  "ex_sis p = (if p = 0 then Some 12 else if p = 1 then Some 10 else None)"



section \<open>Properties of eligibility\<close>

lemma is_c_identifier_loop_drop:
  "is_c_identifier_loop s i = list_all (\<lambda>c. isalnum c \<or> c = CHR ''_'') (drop i s)"
proof (induction s i rule: is_c_identifier_loop.induct)
  case (1 s i)
  show ?case
  proof (cases "i < length s")
    case True
    then have d: "drop i s = s ! i # drop (i + 1) s"
      by (simp add: Cons_nth_drop_Suc)
    show ?thesis
      using True 1 by (subst is_c_identifier_loop.simps) (auto simp: d)
  next
    case False
    then show ?thesis
      by (subst is_c_identifier_loop.simps) simp
  qed
qed

lemma is_c_identifier_valid: "is_c_identifier s = valid_c_identifier s"
  by (cases s)
    (auto simp: is_c_identifier_def valid_c_identifier_def is_c_identifier_loop_drop drop_Suc)

text \<open>
  C6. \<^verbatim>\<open>is_eligible\<close> returns true exactly for a section whose flags include SHF_ALLOC and
  SHF_EXECINSTR and exclude SHF_WRITE, whose type is not SHT_NOBITS, that is neither
  \<^verbatim>\<open>.init\<close>/SHT_INIT_ARRAY nor \<^verbatim>\<open>.fini\<close>/SHT_FINI_ARRAY, and whose name is not a valid
  C identifier.
\<close>

theorem is_eligible_iff:
  "is_eligible isec \<longleftrightarrow>
     (sh_flags (shdr isec) AND SHF_ALLOC \<noteq> 0 \<and>
      sh_flags (shdr isec) AND SHF_EXECINSTR \<noteq> 0 \<and>
      sh_flags (shdr isec) AND SHF_WRITE = 0 \<and>
      sh_type (shdr isec) \<noteq> SHT_NOBITS \<and>
      \<not> (name isec = ''.init'' \<or> sh_type (shdr isec) = SHT_INIT_ARRAY) \<and>
      \<not> (name isec = ''.fini'' \<or> sh_type (shdr isec) = SHT_FINI_ARRAY) \<and>
      \<not> valid_c_identifier (name isec))"
  by (auto simp: is_eligible_def Let_def is_c_identifier_valid)

theorem is_eligible_iff_witness: "is_eligible sec_text_f"
  using is_eligible_iff [of sec_text_f]
  by (simp add: sec_text_f_def SHF_ALLOC_def SHF_EXECINSTR_def SHF_WRITE_def SHT_NOBITS_def
      SHT_INIT_ARRAY_def SHT_FINI_ARRAY_def valid_c_identifier_def isalpha_def)




section \<open>Bytes and ranges\<close>

lemma unat_sub_succ:
  fixes a dst :: u64
  assumes "a \<noteq> dst"
  shows "unat (a - dst) = Suc (unat (a - (dst + 1)))"
proof -
  have nz: "a - dst \<noteq> 0" using assms by simp
  have e: "a - (dst + 1) = (a - dst) - 1" by simp
  have "unat (a - (dst + 1)) = unat (a - dst) - 1"
    unfolding e using nz by (rule unat_minus_one)
  moreover have "0 < unat (a - dst)" using nz by (simp add: unat_gt_0)
  ultimately show ?thesis by simp
qed

lemma unat_minus_1_u64: "unat (- 1 :: u64) = 18446744073709551615"
  by (simp add: unsigned_minus_1_eq_mask mask_eq_exp_minus_1)

text \<open>What \<^verbatim>\<open>memcpy\<close> leaves at an address: the byte of the source, or the old byte.\<close>

lemma memcpy_apply:
  "length bs < 2 ^ 64 \<Longrightarrow>
   memcpy dst bs m a = (if unat (a - dst) < length bs then bs ! unat (a - dst) else m a)"
proof (induction bs arbitrary: dst m)
  case Nil
  then show ?case by simp
next
  case (Cons b bs)
  have len: "length bs < 2 ^ 64" using Cons.prems by simp
  show ?case
  proof (cases "a = dst")
    case True
    have far: "\<not> unat (a - (dst + 1)) < length bs"
      using len True by (simp add: unat_minus_1_u64)
    have "memcpy (dst + 1) bs (m(dst := b)) a = (m(dst := b)) a"
      by (subst Cons.IH [OF len]) (simp only: far if_False)
    then show ?thesis using True by simp
  next
    case False
    show ?thesis using False
      by (simp add: Cons.IH [OF len] unat_sub_succ [OF False])
  qed
qed

lemma le_bytes_Suc: "le_bytes (Suc n) v = ucast v # le_bytes n (drop_bit 8 v)"
proof -
  have "[0..<Suc n] = 0 # map Suc [0..<n]"
    by (simp add: upt_conv_Cons map_Suc_upt del: upt_Suc)
  then show ?thesis
    by (simp add: le_bytes_def comp_def add.commute del: upt_Suc)
qed

lemma length_le_bytes [simp]: "length (le_bytes n v) = n"
  by (simp add: le_bytes_def)

text \<open>Reading back the \<open>n\<close> bytes of a stored value gives its \<open>8 * n\<close> low bits.\<close>

lemma load_store_le:
  "n \<le> 8 \<Longrightarrow> load_le n loc (memcpy loc (le_bytes n v) m) = take_bit (8 * n) v"
proof (induction n arbitrary: loc v m)
  case 0
  then show ?case by simp
next
  case (Suc n)
  have far: "\<not> unat (loc - (loc + 1)) < n"
    using Suc.prems by (simp add: unat_minus_1_u64)
  have here: "memcpy (loc + 1) (le_bytes n (drop_bit 8 v)) (m(loc := ucast v)) loc = ucast v"
    using Suc.prems far by (subst memcpy_apply) auto
  have rest:
    "load_le n (loc + 1) (memcpy (loc + 1) (le_bytes n (drop_bit 8 v)) (m(loc := ucast v))) =
     take_bit (8 * n) (drop_bit 8 v)"
    using Suc.prems by (intro Suc.IH) simp
  have "(ucast (ucast v :: u8) :: u64) OR push_bit 8 (take_bit (8 * n) (drop_bit 8 v)) =
        take_bit (8 * Suc n) v"
    by (rule bit_eqI) (auto simp: bit_simps)
  then show ?case
    by (simp add: le_bytes_Suc here rest)
qed

lemma ucast_ucast_fits:
  fixes val :: u64
  assumes "LENGTH('a::len) \<le> 64"
  shows "(val = ucast (ucast val :: 'a word)) \<longleftrightarrow> uint val < 2 ^ LENGTH('a)"
proof -
  have "(ucast (ucast val :: 'a word) :: u64) = take_bit LENGTH('a) val"
    by (rule bit_eqI) (auto simp: bit_simps)
  moreover have "(take_bit LENGTH('a) val = val) \<longleftrightarrow> uint val < 2 ^ LENGTH('a)"
  proof -
    have "(take_bit LENGTH('a) val = val) \<longleftrightarrow> take_bit LENGTH('a) (uint val) = uint val"
      by (simp add: word_eq_iff_unsigned [where ?'a = int] unsigned_take_bit_eq)
    then show ?thesis
      by (simp add: take_bit_int_eq_self_iff)
  qed
  ultimately show ?thesis by metis
qed

lemma scast_ucast_fits:
  fixes val :: u64
  assumes "LENGTH('a::len) \<le> 64"
  shows "(val = scast (ucast val :: 'a word)) \<longleftrightarrow>
         - (2 ^ (LENGTH('a) - 1)) \<le> sint val \<and> sint val < 2 ^ (LENGTH('a) - 1)"
proof -
  let ?n = "LENGTH('a) - Suc 0"
  have le: "?n \<le> 63" using assms by simp
  have a: "sint (ucast val :: 'a word) = signed_take_bit ?n (sint val)"
  proof -
    have "sint (ucast val :: 'a word) = signed_take_bit ?n (uint val)"
      by (rule signed_ucast_eq)
    also have "\<dots> = signed_take_bit ?n (signed_take_bit 63 (uint val))"
      using le by (simp add: signed_take_bit_signed_take_bit min_def)
    also have "signed_take_bit 63 (uint val) = sint val"
      by (simp add: sint_uint)
    finally show ?thesis .
  qed
  have b: "sint (scast (ucast val :: 'a word) :: u64) = sint (ucast val :: 'a word)"
    using assms by (simp add: sint_up_scast is_up)
  have "(val = scast (ucast val :: 'a word)) \<longleftrightarrow> sint val = signed_take_bit ?n (sint val)"
    by (simp add: word_eq_iff_signed [where ?'a = int] a b)
  also have "\<dots> \<longleftrightarrow> - (2 ^ ?n) \<le> sint val \<and> sint val < 2 ^ ?n"
    by (metis signed_take_bit_int_eq_self_iff)
  finally show ?thesis by simp
qed

text \<open>\<^verbatim>\<open>overflow_check\<close> reports exactly the values outside the range of the type.\<close>

lemma overflow_check_eq:
  "known_type ty \<Longrightarrow>
   overflow_check sy ty val =
     Inr (if psabi_range_ok ty val then [] else [Out_of_range ty (sym_name sy) val])"
  using ucast_ucast_fits [where ?'a = 8, of val] ucast_ucast_fits [where ?'a = 16, of val]
    ucast_ucast_fits [where ?'a = 32, of val] scast_ucast_fits [where ?'a = 8, of val]
    scast_ucast_fits [where ?'a = 16, of val] scast_ucast_fits [where ?'a = 32, of val]
  by (cases ty)
    (simp_all add: overflow_check_def psabi_range_ok_def known_type_def fits_unsigned_def
      fits_signed_def)

section \<open>Relocation scanning and application, one relocation at a time\<close>

lemma scan_loop_step:
  "i < length (rels isec) \<Longrightarrow> scan_rel cfg symbols isec i st = Inr (rts, env, c) \<Longrightarrow>
   scan_loop cfg symbols isec i st = scan_loop cfg symbols isec (if c then i + 2 else i + 1) (rts, env)"
  by (subst scan_loop.simps) simp

lemma apply_alloc_loop_step:
  "i < length (rels isec) \<Longrightarrow> apply_rel out symbols symtab isec base i st = Inr (st', c) \<Longrightarrow>
   apply_alloc_loop out symbols symtab isec base i st =
   apply_alloc_loop out symbols symtab isec base (if c then i + 2 else i + 1) st'"
  by (subst apply_alloc_loop.simps) simp

lemma write_val_load:
  assumes "known_type ty"
  shows "\<exists>m'. write_val ty loc val m = Inr m' \<and>
      load_le (write_width ty) loc m' = take_bit (8 * write_width ty) val"
proof -
  have t8: "take_bit 8 (ucast (ucast val :: u8) :: u64) = take_bit 8 val"
    by (rule bit_eqI) (auto simp: bit_simps)
  have t16: "take_bit 16 (ucast (ucast val :: u16) :: u64) = take_bit 16 val"
    by (rule bit_eqI) (auto simp: bit_simps)
  have t32: "take_bit 32 (ucast (ucast val :: u32) :: u64) = take_bit 32 val"
    by (rule bit_eqI) (auto simp: bit_simps)
  have l1: "load_le 1 loc (store_u8 loc (ucast val) m) = take_bit 8 val"
    using load_store_le [of 1 loc "ucast (ucast val :: u8)" m] by (simp add: store_u8_def t8)
  have l2: "load_le 2 loc (store_u16 loc (ucast val) m) = take_bit 16 val"
    using load_store_le [of 2 loc "ucast (ucast val :: u16)" m] by (simp add: store_u16_def t16)
  have l4: "load_le 4 loc (store_u32 loc (ucast val) m) = take_bit 32 val"
    using load_store_le [of 4 loc "ucast (ucast val :: u32)" m] by (simp add: store_u32_def t32)
  have l8: "load_le 8 loc (store_u64 loc val m) = take_bit 64 val"
    using load_store_le [of 8 loc val m] by (simp add: store_u64_def)
  show ?thesis
    using assms l1 l2 l4 l8
    by (cases ty) (simp_all add: write_val_def write_width_def known_type_def)
qed

lemma write_checked_eq:
  assumes "known_type ty"
  shows "\<exists>st'. write_checked sy ty loc val st = Inr st' \<and>
      errors st' = errors st @
        (if psabi_range_ok ty val then [] else [Out_of_range ty (sym_name sy) val]) \<and>
      load_le (write_width ty) loc (buf st') = take_bit (8 * write_width ty) val \<and>
      reldyn st' = reldyn st \<and> dynrel st' = dynrel st \<and> ref_idx st' = ref_idx st"
proof -
  obtain m' where m': "write_val ty loc val (buf st) = Inr m'"
    "load_le (write_width ty) loc m' = take_bit (8 * write_width ty) val"
    using write_val_load [OF assms] by blast
  show ?thesis
    by (simp add: write_checked_def overflow_check_eq [OF assms] m')
qed

lemma tlsgd_bytes:
  fixes loc :: u64 and v m
  defines "m' \<equiv> store_u32 (loc + 8) v (memcpy (loc - 4) tlsgd_relax_insn m)"
  shows "map (\<lambda>k. m' (loc - 4 + of_nat k)) [0..<12] = take 12 tlsgd_relax_insn"
    and "load_le 4 (loc + 8) m' = ucast v"
    and "16 \<le> unat (a - (loc - 4)) \<Longrightarrow> m' a = m a"
proof -
  show "map (\<lambda>k. m' (loc - 4 + of_nat k)) [0..<12] = take 12 tlsgd_relax_insn"
    unfolding m'_def store_u32_def
    by (simp add: memcpy_apply tlsgd_relax_insn_def upt_rec [of _ "numeral _"] unat_minus_1_u64)
  have "take_bit 32 (ucast v :: u64) = ucast v"
    by (rule bit_eqI) (auto simp: bit_simps dest: bit_imp_le_length)
  then show "load_le 4 (loc + 8) m' = ucast v"
    unfolding m'_def store_u32_def using load_store_le [of 4 "loc + 8" "ucast v"] by simp
  assume far: "16 \<le> unat (a - (loc - 4))"
  have e: "a - (loc + 8) = (a - (loc - 4)) - 12" by simp
  have u: "unat ((a - (loc - 4)) - 12) = unat (a - (loc - 4)) - 12"
    using far by (subst unat_sub) (simp_all add: word_le_nat_alt)
  have "unat (a - (loc + 8)) = unat (a - (loc - 4)) - 12"
    unfolding e by (rule u)
  then have "\<not> unat (a - (loc + 8)) < 4" using far by linarith
  moreover have "length tlsgd_relax_insn = 16" by (simp add: tlsgd_relax_insn_def)
  ultimately show "m' a = m a"
    unfolding m'_def store_u32_def using far
    by (simp add: memcpy_apply del: memcpy.simps)
qed

lemma load_le_numeral:
  "load_le (numeral k) loc m = ucast (m loc) OR push_bit 8 (load_le (pred_numeral k) (loc + 1) m)"
  by (simp add: numeral_eq_Suc)

lemmas ex_defs = ex_sym_def ex_symtab_def ex_symbols_def ex_cfg_def ex_env_def ex_out_def
  ex_st_def ex_section_def ex_data_def ex_nobits_def ex_tls_def ex_tls_undef_def ex_byte_def
  ex_debug_def

text \<open>
  C2. A relocation of type R_X86_64_64 whose symbol is defined and no placeholder: without
  \<^verbatim>\<open>pie\<close> it is classified R_ABS, with NEEDS_PLT for a code symbol or NEEDS_COPYREL
  otherwise when the symbol is imported; with \<^verbatim>\<open>pie\<close> and an imported symbol it is
  classified R_DYN, NEEDS_DYNSYM is set and \<^verbatim>\<open>num_dynrel\<close> is incremented; with \<^verbatim>\<open>pie\<close>
  and a relative symbol that is not imported it is classified R_ABS_DYN and \<^verbatim>\<open>num_dynrel\<close>
  is incremented; in both cases an error is reported when the section is read-only;
  otherwise it is classified R_ABS. The scan goes on with the next relocation.
\<close>

theorem scan_rel_R_X86_64_64:
  fixes cfg symbols isec i rts env
  defines "rel \<equiv> rels isec ! i"
  defines "p \<equiv> symbols ! unat (r_sym rel)"
  defines "sy \<equiv> syms env p"
  defines "readonly \<equiv> sh_flags (shdr isec) AND SHF_WRITE = 0"
  defines "fpie \<equiv> (if readonly then [Recompile_with_fPIE R_X86_64_64 (sym_name sy)] else [])"
  assumes ty: "r_type rel = R_X86_64_64"
    and inb: "i < length (rels isec)" "i < length rts" "unat (r_sym rel) < length symbols"
    and df: "defined_sym sy"
  shows "\<exists>rts' env'.
     scan_rel cfg symbols isec i (rts, env) = Inr (rts', env', False) \<and>
     scan_loop cfg symbols isec i (rts, env) = scan_loop cfg symbols isec (i + 1) (rts', env') \<and>
     (\<not> pie cfg \<longrightarrow>
        rts' = rts[i := R_ABS] \<and> num_dynrel env' = num_dynrel env \<and>
        errors env' = errors env \<and>
        flags (syms env' p) =
          (if is_imported sy
           then insert (if st_type sy = STT_FUNC then NEEDS_PLT else NEEDS_COPYREL) (flags sy)
           else flags sy)) \<and>
     (pie cfg \<and> is_imported sy \<longrightarrow>
        rts' = rts[i := R_DYN] \<and> num_dynrel env' = num_dynrel env + 1 \<and>
        errors env' = errors env @ fpie \<and>
        flags (syms env' p) = insert NEEDS_DYNSYM (flags sy)) \<and>
     (pie cfg \<and> \<not> is_imported sy \<and> is_relative sy \<longrightarrow>
        rts' = rts[i := R_ABS_DYN] \<and> num_dynrel env' = num_dynrel env + 1 \<and>
        errors env' = errors env @ fpie \<and> flags (syms env' p) = flags sy) \<and>
     (pie cfg \<and> \<not> is_imported sy \<and> \<not> is_relative sy \<longrightarrow>
        rts' = rts[i := R_ABS] \<and> num_dynrel env' = num_dynrel env \<and>
        errors env' = errors env \<and> flags (syms env' p) = flags sy)"
proof -
  obtain rts' env' where r: "scan_rel cfg symbols isec i (rts, env) = Inr (rts', env', False)"
    using ty inb df unfolding rel_def p_def sy_def
    by (cases "pie cfg"; cases "is_imported (syms env (symbols ! unat (r_sym (rels isec ! i))))";
        cases "is_relative (syms env (symbols ! unat (r_sym (rels isec ! i))))")
      (simp_all add: scan_rel_def Let_def defined_sym_def)
  have l: "scan_loop cfg symbols isec i (rts, env) =
      scan_loop cfg symbols isec (i + 1) (rts', env')"
    using scan_loop_step [OF inb(1) r] by simp
  show ?thesis
    using ty inb df r l
    unfolding rel_def p_def sy_def readonly_def fpie_def
    by (auto simp: scan_rel_def Let_def Error_def add_flag_def defined_sym_def)
qed

theorem scan_rel_R_X86_64_64_witness:
  "\<exists>rts' env'. scan_rel ex_cfg ex_symbols ex_data 0 ([R_NONE], ex_env) = Inr (rts', env', False) \<and>
     rts' = [R_ABS_DYN] \<and> num_dynrel env' = 1 \<and> errors env' = []"
  using scan_rel_R_X86_64_64 [where isec = ex_data and i = 0 and symbols = ex_symbols
      and rts = "[R_NONE]" and env = ex_env and cfg = ex_cfg]
  by (auto simp: ex_defs defined_sym_def SHF_WRITE_def)

text \<open>
  C7, as the spec states it, has a range check for every relocation that
  \<^verbatim>\<open>apply_reloc_alloc\<close> applies. The case R_TLSGD_RELAX_LE writes its 32-bit field
  without the lambda \<^verbatim>\<open>write\<close>: for the TLSGD relocation of the section \<^verbatim>\<open>ex_tls\<close> the
  value \<open>S - tls_end + A + 4\<close> is 0x80000103, outside the signed 32-bit range of
  R_X86_64_TLSGD; its low 32 bits are written and no error is reported.
\<close>

theorem apply_reloc_alloc_tlsgd_relax_counterexample:
  "map_sum id (\<lambda>s. (errors s, load_le 4 12 (buf s)))
     (apply_reloc_alloc ex_out ex_symbols ex_symtab 0
        (ex_tls\<lparr>rel_types := [R_TLSGD_RELAX_LE, R_NONE]\<rparr>) 0 ex_st) = Inr ([], 0x80000103) \<and>
   \<not> psabi_range_ok R_X86_64_TLSGD 0x80000103"
  by (simp add: ex_defs apply_reloc_alloc_def apply_alloc_loop.simps apply_rel_def Let_def
      store_u32_def le_bytes_def tlsgd_relax_insn_def psabi_range_ok_def fits_signed_def
      upt_rec [of _ "numeral _"] load_le_numeral)

text \<open>
  C7, amended. For every relocation whose kind goes through the lambda \<^verbatim>\<open>write\<close> (R_ABS,
  R_ABS_DYN, R_PC, R_GOT, R_GOTPC, R_GOTPCREL, R_TLSGD, R_TLSLD, R_DTPOFF, R_TPOFF,
  R_GOTTPOFF), the value of the spec's formula is checked against the range of the
  relocation type: an error is reported exactly when the value is outside the range, the
  value is written all the same, truncated to the write width, and the applier goes on
  with the next relocation.
\<close>

theorem apply_rel_range_check:
  fixes out symbols symtab isec base i st
  defines "rel \<equiv> rels isec ! i"
  defines "sy \<equiv> symtab (symbols ! unat (r_sym rel))"
  defines "kind \<equiv> rel_types isec ! i"
  defines "val \<equiv> reloc_value out isec sy (fragment_ref isec i (ref_idx st)) rel kind"
  assumes i: "i < length (rels isec)" "i < length (rel_types isec)"
    and inb: "rel_in_bounds symbols isec i (ref_idx st)"
    and kind: "writes_value kind"
    and known: "known_type (r_type rel)"
    and dyn: "kind = R_ABS_DYN \<longrightarrow> dynrel st \<noteq> None"
  shows "\<exists>st'.
     apply_rel out symbols symtab isec base i st = Inr (st', False) \<and>
     errors st' = errors st @
       (if psabi_range_ok (r_type rel) val then []
        else [Out_of_range (r_type rel) (sym_name sy) val]) \<and>
     load_le (write_width (r_type rel)) (base + r_offset rel) (buf st') =
       take_bit (8 * write_width (r_type rel)) val \<and>
     apply_alloc_loop out symbols symtab isec base i st =
       apply_alloc_loop out symbols symtab isec base (i + 1) st'"
proof -
  let ?st = "if has_fragments isec ! i then st\<lparr>ref_idx := ref_idx st + 1\<rparr> else st"
  obtain st1 where st1:
    "write_checked sy (r_type rel) (base + r_offset rel) val ?st = Inr st1"
    "errors st1 = errors ?st @
        (if psabi_range_ok (r_type rel) val then []
         else [Out_of_range (r_type rel) (sym_name sy) val])"
    "load_le (write_width (r_type rel)) (base + r_offset rel) (buf st1) =
       take_bit (8 * write_width (r_type rel)) val"
    "dynrel st1 = dynrel ?st"
    using write_checked_eq [OF known, of sy "base + r_offset rel" val ?st] by blast
  have e: "errors ?st = errors st" "dynrel ?st = dynrel st" by simp_all
  have "\<exists>st'. apply_rel out symbols symtab isec base i st = Inr (st', False) \<and>
     errors st' = errors st1 \<and> buf st' = buf st1"
  proof (cases "kind = R_ABS_DYN")
    case True
    then obtain d where d: "dynrel st1 = Some d" using dyn st1(4) e by auto
    show ?thesis
      using True st1(1) d i inb
      unfolding kind_def val_def sy_def rel_def
      by (simp add: apply_rel_def rel_in_bounds_def Let_def reloc_value_def reloc_S_def
          reloc_A_def reloc_P_def fragment_ref_def emit_dynrel_def)
  next
    case False
    show ?thesis
      using False kind st1(1) i inb
      unfolding kind_def val_def sy_def rel_def
      by (cases "rel_types isec ! i")
        (simp_all add: apply_rel_def rel_in_bounds_def Let_def reloc_value_def reloc_S_def
          reloc_A_def reloc_P_def fragment_ref_def writes_value_def algebra_simps)
  qed
  then obtain st' where st': "apply_rel out symbols symtab isec base i st = Inr (st', False)"
    "errors st' = errors st1" "buf st' = buf st1" by blast
  have "apply_alloc_loop out symbols symtab isec base i st =
       apply_alloc_loop out symbols symtab isec base (i + 1) st'"
    using apply_alloc_loop_step [OF i(1) st'(1)] by simp
  then show ?thesis
    using st' st1 e by auto
qed

theorem apply_rel_range_check_witness:
  "\<exists>st'. apply_rel ex_out ex_symbols ex_symtab ex_byte 0 0 ex_st = Inr (st', False) \<and>
     errors st' = [Out_of_range R_X86_64_8 ''foo'' 0x100] \<and> load_le 1 0 (buf st') = 0"
  using apply_rel_range_check [where i = 0 and isec = ex_byte and st = ex_st
      and symbols = ex_symbols and symtab = ex_symtab and out = ex_out and base = 0]
  by (auto simp: ex_defs rel_in_bounds_def writes_value_def known_type_def reloc_value_def
      reloc_S_def reloc_A_def reloc_P_def fragment_ref_def psabi_range_ok_def fits_unsigned_def
      write_width_def load_le_numeral)

text \<open>
  C8, as the spec states it, classifies every R_X86_64_TLSGD relocation that the scan
  sees with \<^verbatim>\<open>relax\<close> set and the symbol not imported. In the section \<^verbatim>\<open>ex_tls_undef\<close> the
  symbol of the TLSGD relocation has no file: the scan reports an undefined symbol, leaves
  the site unclassified (R_NONE) and does not consume the PLT32 relocation that follows,
  which it classifies R_PC.
\<close>

theorem scan_tlsgd_undefined_counterexample:
  "r_type (rels ex_tls_undef ! 0) = R_X86_64_TLSGD \<and> relax ex_cfg \<and>
   \<not> is_imported (ex_symtab (ex_symbols ! unat (r_sym (rels ex_tls_undef ! 0)))) \<and>
   map_sum id (\<lambda>(s, e). (rel_types s, errors e))
     (scan_relocations ex_cfg ex_symbols (ex_tls_undef, ex_env)) =
   Inr ([R_NONE, R_PC], [Undefined_symbol ''foo''])"
  by (simp add: ex_defs scan_relocations_def scan_loop.simps scan_rel_def Let_def resize_def
      SHF_ALLOC_def Error_def STT_GNU_IFUNC_def)

text \<open>
  C8, amended. When the scan reaches an R_X86_64_TLSGD relocation whose symbol is defined
  and no placeholder, with \<^verbatim>\<open>relax\<close> set and the symbol not imported, the site is classified
  R_TLSGD_RELAX_LE, an error is reported if the next relocation is absent or not PLT32,
  and the scan goes on two relocations further. For a site classified R_TLSGD_RELAX_LE
  the applier writes the bytes 64 48 8b 04 25 00 00 00 00 48 8d 80 from 4 bytes before
  the site, the low 32 bits of \<open>S - tls_end + A + 4\<close> in the 4 bytes that follow (8 bytes
  past the site), nothing outside these 16 bytes, and goes on two relocations further.
\<close>

theorem tlsgd_relax_le:
  fixes cfg symbols isec i rts env out symtab base st
  defines "rel \<equiv> rels isec ! i"
  defines "p \<equiv> symbols ! unat (r_sym rel)"
  defines "loc \<equiv> base + r_offset rel"
  defines "ref \<equiv> fragment_ref isec i (ref_idx st)"
  defines "env' \<equiv> env\<lparr>errors := errors env @
      (if i + 1 = length (rels isec) \<or> r_type (rels isec ! (i + 1)) \<noteq> R_X86_64_PLT32
       then [TLSGD_not_followed_by_PLT32] else [])\<rparr>"
  shows
   "(r_type rel = R_X86_64_TLSGD \<and> i < length (rels isec) \<and>
     unat (r_sym rel) < length symbols \<and> defined_sym (syms env p) \<and>
     relax cfg \<and> \<not> is_imported (syms env p) \<longrightarrow>
       scan_rel cfg symbols isec i (rts, env) = Inr (rts[i := R_TLSGD_RELAX_LE], env', True) \<and>
       scan_loop cfg symbols isec i (rts, env) =
         scan_loop cfg symbols isec (i + 2) (rts[i := R_TLSGD_RELAX_LE], env')) \<and>
    (rel_types isec ! i = R_TLSGD_RELAX_LE \<and> i < length (rels isec) \<and>
     i < length (rel_types isec) \<and> rel_in_bounds symbols isec i (ref_idx st) \<longrightarrow>
       (\<exists>st'. apply_rel out symbols symtab isec base i st = Inr (st', True) \<and>
          map (\<lambda>k. buf st' (loc - 4 + of_nat k)) [0..<12] =
            [0x64, 0x48, 0x8b, 0x04, 0x25, 0, 0, 0, 0, 0x48, 0x8d, 0x80] \<and>
          load_le 4 (loc + 8) (buf st') =
            take_bit 32 (reloc_S (symtab p) ref - tls_end out + reloc_A rel ref + 4) \<and>
          (\<forall>a. 16 \<le> unat (a - (loc - 4)) \<longrightarrow> buf st' a = buf st a) \<and>
          errors st' = errors st \<and> reldyn st' = reldyn st \<and>
          apply_alloc_loop out symbols symtab isec base i st =
            apply_alloc_loop out symbols symtab isec base (i + 2) st'))"
proof (intro conjI impI)
  assume a: "r_type rel = R_X86_64_TLSGD \<and> i < length (rels isec) \<and>
     unat (r_sym rel) < length symbols \<and> defined_sym (syms env p) \<and>
     relax cfg \<and> \<not> is_imported (syms env p)"
  then show s: "scan_rel cfg symbols isec i (rts, env) =
      Inr (rts[i := R_TLSGD_RELAX_LE], env', True)"
    unfolding rel_def p_def env'_def
    by (simp add: scan_rel_def Let_def defined_sym_def Error_def)
  show "scan_loop cfg symbols isec i (rts, env) =
         scan_loop cfg symbols isec (i + 2) (rts[i := R_TLSGD_RELAX_LE], env')"
    using scan_loop_step [OF _ s] a by simp
next
  assume a: "rel_types isec ! i = R_TLSGD_RELAX_LE \<and> i < length (rels isec) \<and>
     i < length (rel_types isec) \<and> rel_in_bounds symbols isec i (ref_idx st)"
  let ?st = "if has_fragments isec ! i then st\<lparr>ref_idx := ref_idx st + 1\<rparr> else st"
  let ?v = "reloc_S (symtab p) ref - tls_end out + reloc_A rel ref + 4"
  let ?m = "store_u32 (loc + 8) (ucast ?v) (memcpy (loc - 4) tlsgd_relax_insn (buf st))"
  have r: "apply_rel out symbols symtab isec base i st = Inr (?st\<lparr>buf := ?m\<rparr>, True)"
    using a unfolding rel_def p_def loc_def ref_def
    by (simp add: apply_rel_def rel_in_bounds_def Let_def reloc_S_def reloc_A_def
        fragment_ref_def)
  have t: "(ucast (ucast ?v :: u32) :: u64) = take_bit 32 ?v"
    by (rule bit_eqI) (auto simp: bit_simps)
  have "map (\<lambda>k. ?m (loc - 4 + of_nat k)) [0..<12] =
            [0x64, 0x48, 0x8b, 0x04, 0x25, 0, 0, 0, 0, 0x48, 0x8d, 0x80]"
    using tlsgd_bytes(1) [of loc "ucast ?v" "buf st"] by (simp add: tlsgd_relax_insn_def)
  moreover have "load_le 4 (loc + 8) ?m = take_bit 32 ?v"
    using tlsgd_bytes(2) [of loc "ucast ?v" "buf st"] t by simp
  moreover have "\<forall>a. 16 \<le> unat (a - (loc - 4)) \<longrightarrow> ?m a = buf st a"
    using tlsgd_bytes(3) [of _ loc "ucast ?v" "buf st"] by blast
  moreover have "apply_alloc_loop out symbols symtab isec base i st =
            apply_alloc_loop out symbols symtab isec base (i + 2) (?st\<lparr>buf := ?m\<rparr>)"
    using apply_alloc_loop_step [OF _ r] a by simp
  ultimately show "\<exists>st'. apply_rel out symbols symtab isec base i st = Inr (st', True) \<and>
          map (\<lambda>k. buf st' (loc - 4 + of_nat k)) [0..<12] =
            [0x64, 0x48, 0x8b, 0x04, 0x25, 0, 0, 0, 0, 0x48, 0x8d, 0x80] \<and>
          load_le 4 (loc + 8) (buf st') =
            take_bit 32 (reloc_S (symtab p) ref - tls_end out + reloc_A rel ref + 4) \<and>
          (\<forall>a. 16 \<le> unat (a - (loc - 4)) \<longrightarrow> buf st' a = buf st a) \<and>
          errors st' = errors st \<and> reldyn st' = reldyn st \<and>
          apply_alloc_loop out symbols symtab isec base i st =
            apply_alloc_loop out symbols symtab isec base (i + 2) st'"
    using r by (intro exI [of _ "?st\<lparr>buf := ?m\<rparr>"]) simp
qed

theorem tlsgd_relax_le_witness:
  "scan_rel ex_cfg ex_symbols (ex_tls\<lparr>rel_types := [R_TLSGD_RELAX_LE, R_NONE]\<rparr>) 0
     ([R_NONE, R_NONE], ex_env) = Inr ([R_TLSGD_RELAX_LE, R_NONE], ex_env, True) \<and>
   (\<exists>st'. apply_rel ex_out ex_symbols ex_symtab (ex_tls\<lparr>rel_types := [R_TLSGD_RELAX_LE, R_NONE]\<rparr>)
            0 0 ex_st = Inr (st', True) \<and>
      map (\<lambda>k. buf st' (of_nat k)) [0..<12] =
        [0x64, 0x48, 0x8b, 0x04, 0x25, 0, 0, 0, 0, 0x48, 0x8d, 0x80] \<and>
      load_le 4 12 (buf st') = 0x80000103)"
  using tlsgd_relax_le [where isec = "ex_tls\<lparr>rel_types := [R_TLSGD_RELAX_LE, R_NONE]\<rparr>"
      and i = 0 and symbols = ex_symbols and rts = "[R_NONE, R_NONE]" and env = ex_env
      and cfg = ex_cfg and st = ex_st and symtab = ex_symtab and out = ex_out and base = 0]
  by (auto simp: ex_defs defined_sym_def rel_in_bounds_def reloc_S_def reloc_A_def
      fragment_ref_def)






















section \<open>Dynamic relocations: what the scan counts and what the applier writes\<close>

lemma Error_num_dynrel [simp]: "num_dynrel (Error e env) = num_dynrel env"
  by (simp add: Error_def)

lemma add_flag_num_dynrel [simp]: "num_dynrel (add_flag p f env) = num_dynrel env"
  by (simp add: add_flag_def)

lemma scan_rel_step:
  assumes "scan_rel cfg symbols isec i (rts, env) = Inr (rts1, env1, c)"
    and "rts ! i = R_NONE" and "i < length rts"
  shows "rts1 = rts[i := rts1 ! i] \<and> (c \<longleftrightarrow> relaxes (rts1 ! i)) \<and>
         num_dynrel env1 = num_dynrel env + (if is_dyn (rts1 ! i) then 1 else 0)"
proof (cases "unat (r_sym (rels isec ! i)) < length symbols \<and>
    defined_sym (syms env (symbols ! unat (r_sym (rels isec ! i))))")
  case False
  have "rts[i := R_NONE] = rts" using assms(2) by (metis list_update_id)
  then show ?thesis
    using assms False
    by (auto simp: scan_rel_def Let_def defined_sym_def relaxes_def is_dyn_def split: if_splits)
next
  case True
  have id: "rts[i := R_NONE] = rts" using assms(2) by (metis list_update_id)
  show ?thesis
    using assms True id
    by (cases "r_type (rels isec ! i)")
      (auto simp: scan_rel_def Let_def defined_sym_def relaxes_def is_dyn_def split: if_splits)
qed


lemma scan_loop_count:
  "scan_loop cfg symbols isec i (rts, env) = Inr (rts', env') \<Longrightarrow>
   length rts = length (rels isec) \<Longrightarrow>
   (\<forall>j. i \<le> j \<longrightarrow> j < length rts \<longrightarrow> rts ! j = R_NONE) \<Longrightarrow>
   length rts' = length rts \<and> take i rts' = take i rts \<and>
   num_dynrel env' = num_dynrel env + length (filter is_dyn (drop i rts')) \<and>
   skip_ok rts' i"
proof (induction cfg symbols isec i "(rts, env)" arbitrary: rts env rule: scan_loop.induct)
  case (1 cfg symbols isec i)
  show ?case
  proof (cases "i < length (rels isec)")
    case False
    then have "rts' = rts" "env' = env"
      using "1.prems"(1) by (simp_all add: scan_loop.simps)
    then show ?thesis
      using False "1.prems"(2) by (simp add: skip_ok.simps)
  next
    case True
    then obtain rts1 env1 c where r: "scan_rel cfg symbols isec i (rts, env) = Inr (rts1, env1, c)"
      and l: "scan_loop cfg symbols isec (if c then i + 2 else i + 1) (rts1, env1) = Inr (rts', env')"
      using "1.prems"(1)
      by (subst (asm) scan_loop.simps) (auto split: sum.splits)
    have ilt: "i < length rts" using True "1.prems"(2) by simp
    have none: "rts ! i = R_NONE" using "1.prems"(3) ilt by simp
    from scan_rel_step [OF r none ilt]
    have upd: "rts1 = rts[i := rts1 ! i]" and c: "c \<longleftrightarrow> relaxes (rts1 ! i)"
      and n1: "num_dynrel env1 = num_dynrel env + (if is_dyn (rts1 ! i) then 1 else 0)"
      by simp_all
    have len1: "length rts1 = length (rels isec)"
      using upd "1.prems"(2) by (metis length_list_update)
    have none1: "\<forall>j. (if c then i + 2 else i + 1) \<le> j \<longrightarrow> j < length rts1 \<longrightarrow> rts1 ! j = R_NONE"
    proof (intro allI impI)
      fix j assume "(if c then i + 2 else i + 1) \<le> j" "j < length rts1"
      then have "i < j" "j < length rts" using len1 "1.prems"(2) by (auto split: if_splits)
      then have "rts1 ! j = rts ! j" using upd by (metis nth_list_update_neq less_irrefl)
      then show "rts1 ! j = R_NONE" using "1.prems"(3) \<open>i < j\<close> \<open>j < length rts\<close> by simp
    qed
    from "1.hyps" [OF True r refl refl l len1 none1]
    have len': "length rts' = length rts1"
      and tk: "take (if c then i + 2 else i + 1) rts' = take (if c then i + 2 else i + 1) rts1"
      and n': "num_dynrel env' =
          num_dynrel env1 + length (filter is_dyn (drop (if c then i + 2 else i + 1) rts'))"
      and sk: "skip_ok rts' (if c then i + 2 else i + 1)"
      by simp_all
    have ilt': "i < length rts'" using len' len1 True by simp
    have at_i: "rts' ! i = rts1 ! i"
    proof -
      have "rts' ! i = take (if c then i + 2 else i + 1) rts' ! i" by simp
      also have "\<dots> = rts1 ! i" unfolding tk by simp
      finally show ?thesis .
    qed
    have tk_i: "take i rts' = take i rts"
    proof -
      have "take i rts' = take i (take (if c then i + 2 else i + 1) rts')"
        by (simp add: min_def)
      also have "\<dots> = take i rts1" unfolding tk by (simp add: min_def)
      also have "\<dots> = take i rts" by (subst upd) simp
      finally show ?thesis .
    qed
    have dr: "drop i rts' = rts' ! i # drop (i + 1) rts'"
      using ilt' by (simp add: Cons_nth_drop_Suc)
    show ?thesis
    proof (cases c)
      case False
      then have nr: "\<not> relaxes (rts' ! i)" using c at_i by simp
      have "skip_ok rts' i"
        using sk False nr ilt' by (subst skip_ok.simps) simp
      then show ?thesis
        using len' len1 "1.prems"(2) tk_i n' n1 False dr at_i by simp
    next
      case True
      then have rl: "relaxes (rts' ! i)" using c at_i by simp
      then have nd: "\<not> is_dyn (rts' ! i)" by (auto simp: relaxes_def is_dyn_def)
      have nxt: "i + 1 < length rts' \<Longrightarrow> rts' ! (i + 1) = R_NONE"
      proof -
        assume a: "i + 1 < length rts'"
        have "rts' ! (i + 1) = take (i + 2) rts' ! (i + 1)" by simp
        also have "\<dots> = rts1 ! (i + 1)" using tk True by simp
        also have "\<dots> = rts ! (i + 1)" using upd by (metis nth_list_update_neq n_not_Suc_n Suc_eq_plus1)
        also have "\<dots> = R_NONE" using "1.prems"(3) a len' len1 "1.prems"(2) by simp
        finally show ?thesis .
      qed
      have cnt: "length (filter is_dyn (drop (i + 1) rts')) =
          length (filter is_dyn (drop (i + 2) rts'))"
      proof (cases "i + 1 < length rts'")
        case True
        then have "drop (i + 1) rts' = rts' ! (i + 1) # drop (i + 2) rts'"
          using Cons_nth_drop_Suc [of "i + 1" rts'] by simp
        then show ?thesis using nxt [OF True] by (simp add: is_dyn_def)
      next
        case False
        then show ?thesis by simp
      qed
      have "skip_ok rts' i"
        using sk True rl ilt' nxt by (subst skip_ok.simps) (auto simp: is_dyn_def)
      then show ?thesis
        using len' len1 "1.prems"(2) tk_i n' n1 True dr at_i nd cnt c by simp
    qed
  qed
qed

lemma write_checked_reldyn:
  "write_checked sy ty loc val st = Inr st1 \<Longrightarrow> reldyn st1 = reldyn st \<and> dynrel st1 = dynrel st"
  by (auto simp: write_checked_def split: sum.splits)

lemma emit_dynrel_length:
  "emit_dynrel rec st = Inr st1 \<Longrightarrow> length (reldyn st1) = length (reldyn st) + 1"
  by (auto simp: emit_dynrel_def split: option.splits)

lemma apply_rel_step:
  assumes "apply_rel out symbols symtab isec base i st = Inr (st', c)"
  shows "(c \<longleftrightarrow> relaxes (rel_types isec ! i)) \<and>
     length (reldyn st') =
       length (reldyn st) + (if is_dyn (rel_types isec ! i) then 1 else 0)"
  using assms
  by (cases "rel_types isec ! i")
    (auto simp: apply_rel_def Let_def relaxes_def is_dyn_def map_sum_def
      dest!: write_checked_reldyn emit_dynrel_length split: if_splits sum.splits)

lemma apply_alloc_loop_count:
  "apply_alloc_loop out symbols symtab isec base i st = Inr st' \<Longrightarrow>
   length (rel_types isec) = length (rels isec) \<Longrightarrow> skip_ok (rel_types isec) i \<Longrightarrow>
   length (reldyn st') = length (reldyn st) + length (filter is_dyn (drop i (rel_types isec)))"
proof (induction out symbols symtab isec base i st rule: apply_alloc_loop.induct)
  case (1 out symbols symtab isec base i st)
  show ?case
  proof (cases "i < length (rels isec)")
    case False
    then show ?thesis using "1.prems" by (simp add: apply_alloc_loop.simps)
  next
    case True
    then obtain st1 c where r: "apply_rel out symbols symtab isec base i st = Inr (st1, c)"
      and l: "apply_alloc_loop out symbols symtab isec base (if c then i + 2 else i + 1) st1 = Inr st'"
      using "1.prems"(1)
      by (subst (asm) apply_alloc_loop.simps) (auto split: sum.splits)
    let ?rts = "rel_types isec"
    have ilt: "i < length ?rts" using True "1.prems"(2) by simp
    from apply_rel_step [OF r]
    have c: "c \<longleftrightarrow> relaxes (?rts ! i)"
      and n1: "length (reldyn st1) = length (reldyn st) + (if is_dyn (?rts ! i) then 1 else 0)"
      by simp_all
    have sk: "skip_ok ?rts (if c then i + 2 else i + 1)"
      and nxt: "c \<Longrightarrow> i + 1 < length ?rts \<Longrightarrow> \<not> is_dyn (?rts ! (i + 1))"
      using "1.prems"(3) ilt c by (subst (asm) skip_ok.simps; simp split: if_splits)+
    from "1.IH" [OF True r refl l "1.prems"(2) sk]
    have n': "length (reldyn st') = length (reldyn st1) +
        length (filter is_dyn (drop (if c then i + 2 else i + 1) ?rts))" .
    have dr: "drop i ?rts = ?rts ! i # drop (i + 1) ?rts"
      using ilt by (simp add: Cons_nth_drop_Suc)
    show ?thesis
    proof (cases c)
      case False
      then show ?thesis using n' n1 dr by simp
    next
      case True
      then have nd: "\<not> is_dyn (?rts ! i)" using c by (auto simp: relaxes_def is_dyn_def)
      have cnt: "length (filter is_dyn (drop (i + 1) ?rts)) =
          length (filter is_dyn (drop (i + 2) ?rts))"
      proof (cases "i + 1 < length ?rts")
        case t: True
        then have "drop (i + 1) ?rts = ?rts ! (i + 1) # drop (i + 2) ?rts"
          using Cons_nth_drop_Suc [of "i + 1" ?rts] by simp
        then show ?thesis using nxt [OF True t] by simp
      next
        case False
        then show ?thesis by simp
      qed
      show ?thesis using n' n1 dr True nd cnt by simp
    qed
  qed
qed

lemma apply_rel_nonalloc_reldyn:
  "apply_rel_nonalloc out symbols symtab isec base i st = Inr st' \<Longrightarrow> reldyn st' = reldyn st"
  by (cases "r_type (rels isec ! i)")
    (auto simp: apply_rel_nonalloc_def Let_def Error_def
      dest!: write_checked_reldyn split: if_splits sum.splits)

lemma apply_nonalloc_loop_reldyn:
  "apply_nonalloc_loop out symbols symtab isec base is st = Inr st' \<Longrightarrow> reldyn st' = reldyn st"
  by (induction "is" arbitrary: st)
    (auto split: sum.splits dest: apply_rel_nonalloc_reldyn)

lemma skip_ok_beyond: "length rts \<le> i \<Longrightarrow> skip_ok rts i"
  by (subst skip_ok.simps) simp

text \<open>A section after its scan, when its vector of kinds was empty before.\<close>

lemma scan_relocations_count:
  assumes "scan_relocations cfg symbols (isec, env) = Inr (isec', env')"
    and "rel_types isec = []"
  shows "num_dynrel env' = num_dynrel env + dyn_count isec' \<and>
         shdr isec' = shdr isec \<and> rels isec' = rels isec \<and>
         (sh_flags (shdr isec) AND SHF_ALLOC \<noteq> 0 \<longrightarrow>
            length (rel_types isec') = length (rels isec') \<and> skip_ok (rel_types isec') 0)"
proof (cases "sh_flags (shdr isec) AND SHF_ALLOC = 0")
  case True
  then show ?thesis using assms by (simp add: scan_relocations_def dyn_count_def)
next
  case False
  let ?rts = "resize (length (rels isec)) R_NONE (rel_types isec)"
  obtain rts' where l: "scan_loop cfg symbols isec 0 (?rts, env) = Inr (rts', env')"
    and i': "isec' = isec\<lparr>rel_types := rts', reldyn_offset := num_dynrel env * sizeof_ElfRela\<rparr>"
    using assms(1) False by (auto simp: scan_relocations_def Let_def split: sum.splits)
  have len: "length ?rts = length (rels isec)" using assms(2) by (simp add: resize_def)
  have none: "\<forall>j. 0 \<le> j \<longrightarrow> j < length ?rts \<longrightarrow> ?rts ! j = R_NONE"
    using assms(2) by (simp add: resize_def)
  from scan_loop_count [OF l len none]
  show ?thesis using False i' len by (simp add: dyn_count_def)
qed

lemma copy_buf_count:
  assumes "copy_buf out symbols symtab fro isec st = Inr st'"
    and "sh_flags (shdr isec) AND SHF_ALLOC \<noteq> 0 \<longrightarrow>
            length (rel_types isec) = length (rels isec) \<and> skip_ok (rel_types isec) 0"
  shows "length (reldyn st') =
     length (reldyn st) + (if copy_skips isec then 0 else dyn_count isec)"
proof (cases "copy_skips isec")
  case True
  then show ?thesis using assms(1) by (auto simp: copy_buf_def copy_skips_def)
next
  case False
  let ?base = "out_sh_offset isec + offset isec"
  let ?st1 = "st\<lparr>buf := memcpy ?base (contents isec) (buf st)\<rparr>"
  show ?thesis
  proof (cases "sh_flags (shdr isec) AND SHF_ALLOC \<noteq> 0")
    case True
    then have "apply_reloc_alloc out symbols symtab fro isec ?base ?st1 = Inr st'"
      using assms(1) False by (simp add: copy_buf_def copy_skips_def Let_def)
    then have "length (reldyn st') = length (reldyn st) +
        length (filter is_dyn (drop 0 (rel_types isec)))"
      using apply_alloc_loop_count [of out symbols symtab isec ?base 0 _ st'] assms(2) True
      by (simp add: apply_reloc_alloc_def)
    then show ?thesis using False True by (simp add: dyn_count_def)
  next
    case f: False
    then have "apply_reloc_nonalloc out symbols symtab isec ?base ?st1 = Inr st'"
      using assms(1) False by (simp add: copy_buf_def copy_skips_def Let_def)
    then have "reldyn st' = reldyn st"
      by (auto simp: apply_reloc_nonalloc_def dest: apply_nonalloc_loop_reldyn)
    then show ?thesis using False f by (simp add: dyn_count_def)
  qed
qed

lemma present_simps [simp]:
  "present [] = []" "present (None # xs) = present xs" "present (Some x # xs) = x # present xs"
  by (simp_all add: present_def)

lemma scan_sections_count:
  "scan_sections cfg symbols ss env = Inr (ss', env') \<Longrightarrow>
   \<forall>s \<in> set (present ss). rel_types s = [] \<Longrightarrow>
   num_dynrel env' = num_dynrel env + sum_list (map dyn_count (present ss')) \<and>
   (\<forall>s \<in> set (present ss'). scanned_ok s)"
proof (induction cfg symbols ss env arbitrary: ss' env' rule: scan_sections.induct)
  case (1 cfg symbols env)
  then show ?case by simp
next
  case (2 cfg symbols ss env)
  then show ?case by (auto split: sum.splits)
next
  case (3 cfg symbols isec ss env)
  from "3.prems"(1) obtain isec' env1 ss1 where
    a: "scan_relocations cfg symbols (isec, env) = Inr (isec', env1)"
    and b: "scan_sections cfg symbols ss env1 = Inr (ss1, env')"
    and c: "ss' = Some isec' # ss1"
    by (auto split: sum.splits)
  have fr: "rel_types isec = []" "\<forall>s \<in> set (present ss). rel_types s = []"
    using "3.prems"(2) by simp_all
  from scan_relocations_count [OF a fr(1)]
  have n1: "num_dynrel env1 = num_dynrel env + dyn_count isec'" and ok: "scanned_ok isec'"
    by (simp_all add: scanned_ok_def)
  from "3.IH" [OF a refl b fr(2)]
  show ?case using n1 ok c by simp
qed

lemma copy_sections_count:
  "copy_sections out symbols symtab fro ss st = Inr st' \<Longrightarrow>
   \<forall>s \<in> set (present ss). scanned_ok s \<Longrightarrow>
   length (reldyn st') + sum_list (map dyn_count (filter copy_skips (present ss))) =
   length (reldyn st) + sum_list (map dyn_count (present ss))"
proof (induction out symbols symtab fro ss st rule: copy_sections.induct)
  case (1 out symbols symtab fro st)
  then show ?case by simp
next
  case (2 out symbols symtab fro ss st)
  then show ?case by simp
next
  case (3 out symbols symtab fro isec ss st)
  from "3.prems"(1) obtain st1 where
    a: "copy_buf out symbols symtab fro isec st = Inr st1"
    and b: "copy_sections out symbols symtab fro ss st1 = Inr st'"
    by (auto split: sum.splits)
  have ok: "scanned_ok isec" "\<forall>s \<in> set (present ss). scanned_ok s"
    using "3.prems"(2) by simp_all
  from copy_buf_count [OF a] ok(1)
  have n1: "length (reldyn st1) =
     length (reldyn st) + (if copy_skips isec then 0 else dyn_count isec)"
    by (simp add: scanned_ok_def)
  from "3.IH" [OF a b ok(2)]
  show ?case using n1 by simp
qed

lemma scan_files_count:
  "scan_files cfg fs env = Inr (fs', env') \<Longrightarrow>
   \<forall>f \<in> set fs. file_num_dynrel f = 0 \<and> (\<forall>s \<in> set (present (file_sections f)). rel_types s = []) \<Longrightarrow>
   \<forall>f \<in> set fs'. file_num_dynrel f = file_dyn_count f \<and>
      (\<forall>s \<in> set (present (file_sections f)). scanned_ok s)"
proof (induction cfg fs env arbitrary: fs' env' rule: scan_files.induct)
  case (1 cfg env)
  then show ?case by simp
next
  case (2 cfg f fs env)
  from "2.prems"(1) obtain ss env1 fs1 where
    a: "scan_sections cfg (file_symbols f) (file_sections f)
             (env\<lparr>num_dynrel := file_num_dynrel f\<rparr>) = Inr (ss, env1)"
    and b: "scan_files cfg fs env1 = Inr (fs1, env')"
    and c: "fs' = f\<lparr>file_sections := ss, file_num_dynrel := num_dynrel env1\<rparr> # fs1"
    by (auto split: sum.splits)
  have fr: "file_num_dynrel f = 0" "\<forall>s \<in> set (present (file_sections f)). rel_types s = []"
    "\<forall>f \<in> set fs. file_num_dynrel f = 0 \<and> (\<forall>s \<in> set (present (file_sections f)). rel_types s = [])"
    using "2.prems"(2) by simp_all
  from scan_sections_count [OF a fr(2)] fr(1)
  have h: "num_dynrel env1 = sum_list (map dyn_count (present ss))"
    "\<forall>s \<in> set (present ss). scanned_ok s"
    by simp_all
  from "2.IH" [OF a refl b fr(3)]
  show ?case using h c by (simp add: file_dyn_count_def)
qed

lemma copy_files_count:
  "copy_files out symtab fs st = Inr st' \<Longrightarrow>
   \<forall>f \<in> set fs. \<forall>s \<in> set (present (file_sections f)). scanned_ok s \<Longrightarrow>
   length (reldyn st') + sum_list (map file_dyn_skipped fs) =
   length (reldyn st) + sum_list (map file_dyn_count fs)"
proof (induction out symtab fs st rule: copy_files.induct)
  case (1 out symtab st)
  then show ?case by simp
next
  case (2 out symtab f fs st)
  from "2.prems"(1) obtain st1 where
    a: "copy_sections out (file_symbols f) symtab (file_reldyn_offset f) (file_sections f) st = Inr st1"
    and b: "copy_files out symtab fs st1 = Inr st'"
    by (auto split: sum.splits)
  have ok: "\<forall>s \<in> set (present (file_sections f)). scanned_ok s"
    "\<forall>f \<in> set fs. \<forall>s \<in> set (present (file_sections f)). scanned_ok s"
    using "2.prems"(2) by simp_all
  from copy_sections_count [OF a ok(1)] "2.IH" [OF a b ok(2)]
  show ?case by (simp add: file_dyn_count_def file_dyn_skipped_def)
qed

lemmas run_defs = scan_relocations_def scan_loop.simps scan_rel_def resize_def
  copy_buf_def apply_reloc_alloc_def apply_alloc_loop.simps apply_rel_def emit_dynrel_def
  write_checked_def overflow_check_def write_val_def apply_reloc_nonalloc_def
  apply_rel_nonalloc_def Error_def add_flag_def Let_def
  SHF_ALLOC_def SHF_WRITE_def SHT_NOBITS_def sizeof_ElfRela_def

text \<open>
  C1, as the spec states it, equates the number of records written at apply time with
  the sum of the counters \<^verbatim>\<open>num_dynrel\<close>. The scan counts the R_X86_64_64 relocation of the
  SHT_NOBITS section \<^verbatim>\<open>ex_nobits\<close> (the counter of its file is 1), and \<^verbatim>\<open>copy_buf\<close> returns
  for a section of type SHT_NOBITS before it calls \<^verbatim>\<open>apply_reloc_alloc\<close>: no record is
  written.
\<close>

theorem num_dynrel_nobits_counterexample:
  "map_sum id (\<lambda>(fs, e). map file_num_dynrel fs)
     (scan_files ex_cfg [ex_file ex_nobits] ex_env) = Inr [1] \<and>
   (case scan_files ex_cfg [ex_file ex_nobits] ex_env of
      Inl e \<Rightarrow> False
    | Inr (fs, e) \<Rightarrow>
        map_sum id (\<lambda>s. length (reldyn s)) (copy_files ex_out (syms e) fs ex_st) = Inr 0)"
  by (simp add: ex_defs ex_file_def run_defs)

text \<open>
  C1, amended. After the scan of files whose counters were 0 and whose sections had no
  kinds yet, the counter \<^verbatim>\<open>num_dynrel\<close> of every file is the number of relocations of its
  SHF_ALLOC sections classified R_DYN or R_ABS_DYN. At apply time every section for which
  \<^verbatim>\<open>copy_buf\<close> calls \<^verbatim>\<open>apply_reloc_alloc\<close> gets as many records as the scan counted for it:
  the number of records written, plus the number counted for the sections that \<^verbatim>\<open>copy_buf\<close>
  skips (type SHT_NOBITS or size 0), is the sum of the counters.
\<close>

theorem num_dynrel_written:
  assumes scan: "scan_files cfg files env = Inr (files', env')"
    and fresh: "\<forall>f \<in> set files. file_num_dynrel f = 0 \<and>
                  (\<forall>s \<in> set (present (file_sections f)). rel_types s = [])"
    and copy: "copy_files out symtab files' st = Inr st'"
  shows "(\<forall>f \<in> set files'. file_num_dynrel f = file_dyn_count f) \<and>
     length (reldyn st') + sum_list (map file_dyn_skipped files') =
       length (reldyn st) + sum_list (map file_num_dynrel files')"
proof -
  from scan_files_count [OF scan fresh]
  have a: "\<forall>f \<in> set files'. file_num_dynrel f = file_dyn_count f"
    and ok: "\<forall>f \<in> set files'. \<forall>s \<in> set (present (file_sections f)). scanned_ok s"
    by simp_all
  have e: "map file_num_dynrel files' = map file_dyn_count files'"
    using a by simp
  show ?thesis
    using a copy_files_count [OF copy ok] unfolding e by blast
qed

theorem num_dynrel_written_witness:
  "scan_files ex_cfg [ex_file ex_data] ex_env =
     Inr ([(ex_file (ex_data\<lparr>rel_types := [R_ABS_DYN]\<rparr>))\<lparr>file_num_dynrel := 1\<rparr>],
          ex_env\<lparr>num_dynrel := 1\<rparr>) \<and>
   (\<exists>st'. copy_files ex_out ex_symtab
            [(ex_file (ex_data\<lparr>rel_types := [R_ABS_DYN]\<rparr>))\<lparr>file_num_dynrel := 1\<rparr>] ex_st = Inr st' \<and>
      length (reldyn st') = 1)"
proof -
  let ?fs = "[(ex_file (ex_data\<lparr>rel_types := [R_ABS_DYN]\<rparr>))\<lparr>file_num_dynrel := 1\<rparr>]"
  have s: "scan_files ex_cfg [ex_file ex_data] ex_env = Inr (?fs, ex_env\<lparr>num_dynrel := 1\<rparr>)"
    by (simp add: ex_defs ex_file_def run_defs)
  have fresh: "\<forall>f \<in> set [ex_file ex_data]. file_num_dynrel f = 0 \<and>
                  (\<forall>s \<in> set (present (file_sections f)). rel_types s = [])"
    by (simp add: ex_defs ex_file_def)
  obtain st' where c: "copy_files ex_out ex_symtab ?fs ex_st = Inr st'"
    by (simp add: ex_defs ex_file_def run_defs)
  have sk: "sum_list (map file_dyn_skipped ?fs) = 0"
    by (simp add: file_dyn_skipped_def copy_skips_def ex_defs ex_file_def SHT_NOBITS_def)
  have "length (reldyn st') = 1"
    using num_dynrel_written [OF s fresh c] sk by (simp add: ex_st_def ex_file_def)
  then show ?thesis using s c by blast
qed

section \<open>ICF: what the initial digest absorbs\<close>

lemma hash_i64_eq: "hash_i64 v ctx = ctx @ i64_bytes v"
  by (simp add: hash_i64_def i64_bytes_def)

lemma hash_string_eq: "hash_string str ctx = ctx @ string_bytes str"
  by (simp add: hash_string_def string_bytes_def hash_i64_eq)

lemma hash_symbol_eq: "hash_symbol sy ctx = ctx @ symbol_digest sy"
  by (auto simp: hash_symbol_def symbol_digest_def hash_i64_eq hash_string_eq split: option.splits)

lemma hash_fde_rels_eq:
  "hash_fde_rels symtab rs ctx =
   ctx @ concat (map (\<lambda>rel. symbol_digest (symtab (eh_sym rel)) @ i64_bytes (ucast (eh_type rel)) @
                        i64_bytes (ucast (eh_offset rel)) @ i64_bytes (eh_addend rel)) rs)"
  by (induction rs arbitrary: ctx) (simp_all add: hash_i64_eq hash_symbol_eq)

lemma hash_fde_eq:
  "8 \<le> length (fde_contents fde) \<Longrightarrow> fde_rels fde \<noteq> [] \<Longrightarrow>
   hash_fde symtab fde ctx = Inr (ctx @ fde_digest symtab fde)"
  by (simp add: hash_fde_def fde_digest_def Let_def hash_i64_eq hash_string_eq hash_fde_rels_eq)

lemma hash_fdes_eq:
  "\<forall>fde \<in> set fs. 8 \<le> length (fde_contents fde) \<and> fde_rels fde \<noteq> [] \<Longrightarrow>
   hash_fdes symtab fs ctx = Inr (ctx @ concat (map (fde_digest symtab) fs))"
  by (induction fs arbitrary: ctx) (simp_all add: hash_fde_eq)

lemma length_filter_take_mono:
  assumes "i \<le> n"
  shows "length (filter P (take i xs)) \<le> length (filter P (take n xs))"
proof -
  have "take n xs = take i xs @ take (n - i) (drop i xs)"
    using assms by (metis le_add_diff_inverse take_add)
  then show ?thesis by simp
qed

lemma hash_rels_eq:
  "digestible symbols isec \<Longrightarrow> i \<le> length (rels isec) \<Longrightarrow>
   k = length (filter id (take i (has_fragments isec))) \<Longrightarrow>
   \<exists>k'. hash_rels symbols symtab isec i (k, ctx) =
     Inr (k', ctx @ concat (map (rel_digest symbols symtab isec) [i..<length (rels isec)]))"
proof (induction symbols symtab isec i "(k, ctx)" arbitrary: k ctx rule: hash_rels.induct)
  case (1 symbols symtab isec i)
  show ?case
  proof (cases "i < length (rels isec)")
    case False
    then show ?thesis by (subst hash_rels.simps) simp
  next
    case True
    let ?rel = "rels isec ! i"
    let ?ctx = "hash_i64 (r_addend ?rel)
                     (hash_i64 (ucast (r_type_code (r_type ?rel)))
                       (hash_i64 (r_offset ?rel) ctx))"
    have hf: "i < length (has_fragments isec)"
      using True "1.prems"(1) by (simp add: digestible_def)
    have tk: "take (i + 1) (has_fragments isec) = take i (has_fragments isec) @ [has_fragments isec ! i]"
      using hf by (simp add: take_Suc_conv_app_nth)
    have up: "[i..<length (rels isec)] = i # [i + 1..<length (rels isec)]"
      using True by (simp add: upt_conv_Cons)
    show ?thesis
    proof (cases "has_fragments isec ! i")
      case t: True
      have "length (filter id (take (i + 1) (has_fragments isec))) \<le>
          length (filter id (take (length (rels isec)) (has_fragments isec)))"
        using True by (intro length_filter_take_mono) simp
      then have kf: "k < length (rel_fragments isec)"
        using "1.prems"(1,3) tk t by (simp add: digestible_def)
      have k1: "k + 1 = length (filter id (take (i + 1) (has_fragments isec)))"
        using "1.prems"(3) tk t by simp
      have "\<exists>k'. hash_rels symbols symtab isec (i + 1)
           (k + 1, hash_string (frag_data (frag (rel_fragments isec ! k)))
                      (hash_i64 (addend (rel_fragments isec ! k)) (hash_i64 1 ?ctx))) =
         Inr (k', hash_string (frag_data (frag (rel_fragments isec ! k)))
                      (hash_i64 (addend (rel_fragments isec ! k)) (hash_i64 1 ?ctx)) @
               concat (map (rel_digest symbols symtab isec) [i + 1..<length (rels isec)]))"
        using "1.hyps"(1) [OF True refl refl] hf t kf "1.prems"(1) True k1 by simp
      then show ?thesis
        using True hf t kf "1.prems"(3)
        by (subst hash_rels.simps)
          (simp add: up Let_def rel_digest_def hash_i64_eq hash_string_eq)
    next
      case f: False
      have sy: "unat (r_sym ?rel) < length symbols"
        using True f "1.prems"(1) by (simp add: digestible_def)
      have k1: "k = length (filter id (take (i + 1) (has_fragments isec)))"
        using "1.prems"(3) tk f by simp
      have "\<exists>k'. hash_rels symbols symtab isec (i + 1)
           (k, hash_symbol (symtab (symbols ! unat (r_sym ?rel))) ?ctx) =
         Inr (k', hash_symbol (symtab (symbols ! unat (r_sym ?rel))) ?ctx @
               concat (map (rel_digest symbols symtab isec) [i + 1..<length (rels isec)]))"
        using "1.hyps"(2) [OF True refl refl] hf f sy "1.prems"(1) True k1 by simp
      then show ?thesis
        using True hf f sy
        by (subst hash_rels.simps)
          (simp add: up Let_def rel_digest_def hash_i64_eq hash_symbol_eq)
    qed
  qed
qed

text \<open>
  C3. For a section that can be digested, \<^verbatim>\<open>compute_digest\<close> is the truncated SHA-256 of
  these bytes, in this order: the contents as a string with its length; \<^verbatim>\<open>sh_flags\<close>; the
  numbers of FDEs and of relocations; for each FDE the bytes [0,4) and [8,end) of its
  contents, each with its length, the number of its relocations and, for each of them but
  the first, the symbol digest, the type, the offset and the addend; for each relocation
  its offset, type and addend, then tag 1, the fragment addend and the fragment bytes if
  it targets a fragment, else the symbol digest (tag 2 and the fragment bytes, tag 3 or
  tag 4, then the value).
\<close>

theorem compute_digest_order:
  assumes "digestible symbols isec"
  shows "compute_digest sha256 symbols symtab isec =
     Inr (digest_final sha256
       (string_bytes (contents isec) @ i64_bytes (sh_flags (shdr isec)) @
        i64_bytes (of_nat (length (fdes isec))) @ i64_bytes (of_nat (length (rels isec))) @
        concat (map (fde_digest symtab) (fdes isec)) @
        concat (map (rel_digest symbols symtab isec) [0..<length (rels isec)])))"
proof -
  let ?ctx0 = "hash_i64 (of_nat (length (rels isec)))
                   (hash_i64 (of_nat (length (fdes isec)))
                     (hash_i64 (sh_flags (shdr isec))
                       (hash_string (contents isec) [])))"
  have c0: "?ctx0 = string_bytes (contents isec) @ i64_bytes (sh_flags (shdr isec)) @
        i64_bytes (of_nat (length (fdes isec))) @ i64_bytes (of_nat (length (rels isec)))"
    by (simp add: hash_i64_eq hash_string_eq)
  have f: "hash_fdes symtab (fdes isec) ?ctx0 =
      Inr (?ctx0 @ concat (map (fde_digest symtab) (fdes isec)))"
    using assms by (intro hash_fdes_eq) (simp add: digestible_def)
  obtain k' where r: "hash_rels symbols symtab isec 0
        (0, ?ctx0 @ concat (map (fde_digest symtab) (fdes isec))) =
      Inr (k', (?ctx0 @ concat (map (fde_digest symtab) (fdes isec))) @
               concat (map (rel_digest symbols symtab isec) [0..<length (rels isec)]))"
    using hash_rels_eq [OF assms, of 0 0 symtab
        "?ctx0 @ concat (map (fde_digest symtab) (fdes isec))"] by auto
  show ?thesis
    unfolding compute_digest_def Let_def f using r by (simp add: c0)
qed

lemmas digest_defs = digest_final_def HASH_SIZE_def string_bytes_def i64_bytes_def le_bytes_def
  fde_digest_def rel_digest_def symbol_digest_def r_type_code_def

theorem compute_digest_order_witness:
  "digestible ex_symbols ex_icf \<and>
   compute_digest (drop 25) ex_symbols ex_symtab ex_icf =
     Inr [2, 0, 0, 0, 0, 0, 0, 0, 4, 0, 0, 0, 0, 0, 0, 0]"
proof -
  have d: "digestible ex_symbols ex_icf"
    by (simp add: digestible_def ex_defs ex_icf_def less_Suc_eq)
  show ?thesis
    using d compute_digest_order [OF d, of "drop 25" ex_symtab]
    by (simp add: ex_defs ex_icf_def digest_defs upt_rec [of _ "numeral _"])
qed

section \<open>ICF: the rounds end\<close>

lemma xor_one_cases: "s < 2 \<Longrightarrow> (s XOR (1::nat)) < 2 \<and> s XOR 1 \<noteq> s \<and> (s XOR 1) XOR 1 = s"
proof -
  assume "s < 2"
  then have "s = 0 \<or> s = 1" by auto
  then show ?thesis by auto
qed

lemma length_filter_mono:
  "(\<And>x. x \<in> set xs \<Longrightarrow> P x \<Longrightarrow> Q x) \<Longrightarrow> length (filter P xs) \<le> length (filter Q xs)"
  by (induction xs) auto

lemma fold_update_upt:
  "n \<le> length other \<Longrightarrow>
   fold (\<lambda>i xs. xs[i := f i]) [0..<n] other = map f [0..<n] @ drop n other"
proof (induction n)
  case 0
  then show ?case by simp
next
  case (Suc n)
  then have n: "n < length other" by simp
  have d: "drop n other = other ! n # drop (Suc n) other"
    using n by (simp add: Cons_nth_drop_Suc)
  have "(map f [0..<n] @ drop n other)[n := f n] = map f [0..<n] @ f n # drop (Suc n) other"
    by (simp add: list_update_append d)
  then show ?case using Suc by simp
qed

lemma length_next_digests [simp]:
  "num_sections g \<le> length ds \<Longrightarrow> length (next_digests sha g ds) = length ds"
  by (simp add: next_digests_def)

lemma next_digests_nth:
  "i < num_sections g \<Longrightarrow> next_digests sha g ds ! i = sha (node_input g ds i)"
  by (simp add: next_digests_def nth_append)

lemma node_digest_ok:
  "graph_ok g (length ds) \<Longrightarrow> i < num_sections g \<Longrightarrow>
   node_digest sha g ds i = Inr (sha (node_input g ds i))"
  by (auto simp: node_digest_def graph_ok_def list_all_iff)

lemma round_loop_fold:
  "graph_ok g (length cur) \<Longrightarrow> \<forall>i \<in> set is. i < num_sections g \<and> i < length other \<Longrightarrow>
   round_loop sha g is cur other =
     Inr (fold (\<lambda>i xs. xs[i := sha (node_input g cur i)]) is other)"
  by (induction "is" arbitrary: other) (simp_all add: node_digest_ok)

lemma round_loop_next:
  assumes "graph_ok g (length cur)" "length other = length cur"
    "drop (num_sections g) other = drop (num_sections g) cur"
  shows "round_loop sha g [0..<num_sections g] cur other = Inr (next_digests sha g cur)"
proof -
  have n: "num_sections g \<le> length other" using assms by (simp add: graph_ok_def)
  have "round_loop sha g [0..<num_sections g] cur other =
     Inr (fold (\<lambda>i xs. xs[i := sha (node_input g cur i)]) [0..<num_sections g] other)"
    using assms(1) n by (intro round_loop_fold) auto
  then show ?thesis
    using fold_update_upt [OF n, of "\<lambda>i. sha (node_input g cur i)"] assms(3)
    by (simp add: next_digests_def)
qed

lemma propagate_round_next:
  assumes "slots_ok g st"
  shows "\<exists>st'. propagate_round sha g st = Inr st' \<and> slots_ok g st' \<and>
     digests st' ! slot st' = next_digests sha g (digests st ! slot st)"
proof -
  let ?cur = "digests st ! slot st" and ?oth = "digests st ! (slot st XOR 1)"
  have s: "slot st = 0 \<or> slot st = 1" using assms by (auto simp: slots_ok_def)
  have g: "graph_ok g (length ?cur)" "length ?oth = length ?cur"
    "drop (num_sections g) ?oth = drop (num_sections g) ?cur"
    using assms s by (auto simp: slots_ok_def)
  have r: "round_loop sha g [0..<num_sections g] ?cur ?oth = Inr (next_digests sha g ?cur)"
    by (rule round_loop_next [OF g])
  have n: "num_sections g \<le> length ?cur" using g(1) by (simp add: graph_ok_def)
  have dn: "drop (num_sections g) (next_digests sha g ?cur) = drop (num_sections g) ?cur"
    by (simp add: next_digests_def)
  let ?st' = "st\<lparr>digests := (digests st)[slot st XOR 1 := next_digests sha g ?cur],
                 slot := slot st XOR 1\<rparr>"
  have "propagate_round sha g st = Inr ?st'"
    unfolding propagate_round_def r by simp
  moreover have "slots_ok g ?st'"
    using assms s n dn by (auto simp: slots_ok_def)
  moreover have "digests ?st' ! slot ?st' = next_digests sha g ?cur"
    using assms s by (auto simp: slots_ok_def)
  ultimately show ?thesis by blast
qed

lemma num_classes_bound: "num_classes_of n ds \<le> n - 1"
proof -
  have "length (filter (\<lambda>i. ds ! i \<noteq> ds ! (i + 1)) [0..<n - 1]) \<le> length [0..<n - 1]"
    by (rule length_filter_le)
  then show ?thesis by (simp add: num_classes_of_def)
qed

lemma count_num_classes_eq:
  "n \<le> length ds \<Longrightarrow> count_num_classes n ds = Inr (num_classes_of n ds)"
  by (simp add: count_num_classes_def num_classes_of_def)

text \<open>Without collision a round separates no two adjacent nodes less than before.\<close>

lemma num_classes_mono:
  assumes "no_collision sha g ds"
  shows "num_classes_of (num_sections g) ds \<le>
         num_classes_of (num_sections g) (next_digests sha g ds)"
  unfolding num_classes_of_def
proof (rule length_filter_mono)
  fix i
  assume i: "i \<in> set [0..<num_sections g - 1]" and d: "ds ! i \<noteq> ds ! (i + 1)"
  then have lt: "i < num_sections g" "i + 1 < num_sections g" by auto
  show "next_digests sha g ds ! i \<noteq> next_digests sha g ds ! (i + 1)"
  proof
    assume "next_digests sha g ds ! i = next_digests sha g ds ! (i + 1)"
    then have "sha (node_input g ds i) = sha (node_input g ds (i + 1))"
      using lt by (simp add: next_digests_nth)
    then have "node_input g ds i = node_input g ds (i + 1)"
      using assms lt by (simp add: no_collision_def)
    then show False using d by (simp add: node_input_def)
  qed
qed

lemma digests_after_Suc:
  "digests_after sha g ds (Suc k) = next_digests sha g (digests_after sha g ds k)"
  by (simp add: digests_after_def)

lemma length_digests_after:
  "num_sections g \<le> length ds \<Longrightarrow> length (digests_after sha g ds k) = length ds"
  by (induction k) (simp_all add: digests_after_def)

lemma propagate_loop_terminates:
  fixes sha :: "'d list \<Rightarrow> 'd"
  defines "N \<equiv> \<lambda>g ds0 i. num_classes_of (num_sections g) (digests_after sha g ds0 i)"
  assumes "slots_ok g st"
    and "digests st ! slot st = digests_after sha g ds0 j"
    and "length ds0 = length (digests st ! 0)"
    and "nc = N g ds0 j" and "j \<le> nc"
    and "\<forall>k < num_sections g. no_collision sha g (digests_after sha g ds0 k)"
  shows "\<exists>k st'. propagate_loop sha g st nc = Some (Inr st') \<and> j < k \<and>
     digests st' ! slot st' = digests_after sha g ds0 k \<and>
     N g ds0 k = N g ds0 (k - 1) \<and>
     (\<forall>i. j < i \<and> i < k \<longrightarrow> N g ds0 i \<noteq> N g ds0 (i - 1)) \<and>
     (\<forall>i. j \<le> i \<and> i < k \<longrightarrow> N g ds0 i \<le> N g ds0 (i + 1))"
  using assms(2-7)
proof (induction "num_sections g - 1 - nc" arbitrary: st j nc rule: less_induct)
  case less
  let ?n = "num_sections g"
  obtain st1 where r: "propagate_round sha g st = Inr st1" and ok1: "slots_ok g st1"
    and d1: "digests st1 ! slot st1 = next_digests sha g (digests st ! slot st)"
    using propagate_round_next [OF less.prems(1)] by blast
  have len0: "?n \<le> length ds0"
    using less.prems(1,3) by (simp add: slots_ok_def graph_ok_def)
  have d1': "digests st1 ! slot st1 = digests_after sha g ds0 (Suc j)"
    using d1 less.prems(2) by (simp add: digests_after_Suc)
  have len1: "?n \<le> length (digests st1 ! slot st1)"
    using len0 d1' by (simp add: length_digests_after)
  have c1: "count_num_classes ?n (digests st1 ! slot st1) = Inr (N g ds0 (Suc j))"
    using count_num_classes_eq [OF len1] d1' by (simp add: N_def)
  have nocol: "no_collision sha g (digests_after sha g ds0 j)"
  proof (cases "?n = 0")
    case True
    then show ?thesis by (simp add: no_collision_def)
  next
    case False
    have "nc \<le> ?n - 1" using less.prems(4) num_classes_bound by (simp add: N_def)
    then have "j < ?n" using less.prems(5) False by simp
    then show ?thesis using less.prems(6) by simp
  qed
  have mono: "nc \<le> N g ds0 (Suc j)"
    using num_classes_mono [OF nocol] less.prems(4) by (simp add: N_def digests_after_Suc)
  show ?case
  proof (cases "N g ds0 (Suc j) = nc")
    case True
    have "propagate_loop sha g st nc = Some (Inr st1)"
      by (subst propagate_loop.simps) (simp add: r c1 True)
    then show ?thesis
      using d1' True less.prems(4) mono
      by (intro exI [of _ "Suc j"] exI [of _ st1]) (auto simp: le_less_Suc_eq)
  next
    case False
    then have gt: "nc < N g ds0 (Suc j)" using mono by simp
    have step: "propagate_loop sha g st nc = propagate_loop sha g st1 (N g ds0 (Suc j))"
      by (subst propagate_loop.simps) (simp add: r c1 False)
    have bnd: "N g ds0 (Suc j) \<le> ?n - 1" using num_classes_bound by (simp add: N_def)
    have meas: "?n - 1 - N g ds0 (Suc j) < ?n - 1 - nc" using gt bnd by simp
    have len1': "length ds0 = length (digests st1 ! 0)"
    proof -
      have "length (digests st1 ! slot st1) = length ds0"
        using d1' len0 by (simp add: length_digests_after)
      moreover have "length (digests st1 ! slot st1) = length (digests st1 ! 0)"
        using ok1 by (auto simp: slots_ok_def less_2_cases_iff)
      ultimately show ?thesis by simp
    qed
    from less.hyps [OF meas ok1 d1' len1' refl _ less.prems(6)] gt less.prems(5)
    obtain k st' where k: "propagate_loop sha g st1 (N g ds0 (Suc j)) = Some (Inr st')"
      "Suc j < k" "digests st' ! slot st' = digests_after sha g ds0 k"
      "N g ds0 k = N g ds0 (k - 1)"
      "\<forall>i. Suc j < i \<and> i < k \<longrightarrow> N g ds0 i \<noteq> N g ds0 (i - 1)"
      "\<forall>i. Suc j \<le> i \<and> i < k \<longrightarrow> N g ds0 i \<le> N g ds0 (i + 1)"
      by auto
    have a: "\<forall>i. j < i \<and> i < k \<longrightarrow> N g ds0 i \<noteq> N g ds0 (i - 1)"
    proof (intro allI impI)
      fix i assume i: "j < i \<and> i < k"
      show "N g ds0 i \<noteq> N g ds0 (i - 1)"
      proof (cases "i = Suc j")
        case True
        then show ?thesis using False less.prems(4) by simp
      next
        case f: False
        then show ?thesis using k(5) i by simp
      qed
    qed
    have b: "\<forall>i. j \<le> i \<and> i < k \<longrightarrow> N g ds0 i \<le> N g ds0 (i + 1)"
    proof (intro allI impI)
      fix i assume i: "j \<le> i \<and> i < k"
      show "N g ds0 i \<le> N g ds0 (i + 1)"
      proof (cases "i = j")
        case True
        then show ?thesis using mono less.prems(4) by simp
      next
        case f: False
        then show ?thesis using k(6) i by simp
      qed
    qed
    show ?thesis
      using step k(1-4) a b by (intro exI [of _ k] exI [of _ st']) auto
  qed
qed

text \<open>
  C4. Without collision of the truncated SHA-256 a round never lowers \<open>num_classes\<close>, the
  number of adjacent index pairs of the eligible sections whose digests differ. When the
  graph is well formed and no round of the first \<^verbatim>\<open>sections.size()\<close> ones has a collision,
  the loop of the rounds ends: it returns after some round \<open>k\<close>, the first round that
  leaves \<open>num_classes\<close> as it was; up to there \<open>num_classes\<close> never decreases.
\<close>

theorem propagation_terminates:
  fixes sha :: "'d list \<Rightarrow> 'd"
  defines "N \<equiv> \<lambda>g ds0 i. num_classes_of (num_sections g) (digests_after sha g ds0 i)"
  assumes g: "graph_ok g (length ds0)"
    and nocol: "\<forall>k < num_sections g. no_collision sha g (digests_after sha g ds0 k)"
  shows "(\<forall>ds. no_collision sha g ds \<longrightarrow>
            num_classes_of (num_sections g) ds \<le>
            num_classes_of (num_sections g) (next_digests sha g ds)) \<and>
     (\<exists>k st'. propagate sha g ds0 = Some (Inr st') \<and> 0 < k \<and>
        digests st' ! slot st' = digests_after sha g ds0 k \<and>
        N g ds0 k = N g ds0 (k - 1) \<and>
        (\<forall>i. 0 < i \<and> i < k \<longrightarrow> N g ds0 i \<noteq> N g ds0 (i - 1)) \<and>
        (\<forall>i < k. N g ds0 i \<le> N g ds0 (i + 1)))"
proof
  show "\<forall>ds. no_collision sha g ds \<longrightarrow>
            num_classes_of (num_sections g) ds \<le>
            num_classes_of (num_sections g) (next_digests sha g ds)"
    using num_classes_mono by blast
next
  let ?st = "\<lparr>digests = [ds0, ds0], slot = 0\<rparr> :: 'd icf_state"
  have ok: "slots_ok g ?st" using g by (simp add: slots_ok_def)
  have n: "num_sections g \<le> length ds0" using g by (simp add: graph_ok_def)
  have c0: "count_num_classes (num_sections g) ds0 = Inr (N g ds0 0)"
    using count_num_classes_eq [OF n] by (simp add: N_def digests_after_def)
  have p: "propagate sha g ds0 = propagate_loop sha g ?st (N g ds0 0)"
    by (simp add: propagate_def c0)
  have "\<exists>k st'. propagate_loop sha g ?st (N g ds0 0) = Some (Inr st') \<and> 0 < k \<and>
     digests st' ! slot st' = digests_after sha g ds0 k \<and>
     N g ds0 k = N g ds0 (k - 1) \<and>
     (\<forall>i. 0 < i \<and> i < k \<longrightarrow> N g ds0 i \<noteq> N g ds0 (i - 1)) \<and>
     (\<forall>i. 0 \<le> i \<and> i < k \<longrightarrow> N g ds0 i \<le> N g ds0 (i + 1))"
    unfolding N_def
    by (rule propagate_loop_terminates [OF ok _ _ refl _ nocol])
      (simp_all add: digests_after_def)
  then show "\<exists>k st'. propagate sha g ds0 = Some (Inr st') \<and> 0 < k \<and>
        digests st' ! slot st' = digests_after sha g ds0 k \<and>
        N g ds0 k = N g ds0 (k - 1) \<and>
        (\<forall>i. 0 < i \<and> i < k \<longrightarrow> N g ds0 i \<noteq> N g ds0 (i - 1)) \<and>
        (\<forall>i < k. N g ds0 i \<le> N g ds0 (i + 1))"
    unfolding p by simp
qed

lemma less_3_cases: "k < (3::nat) \<longleftrightarrow> k = 0 \<or> k = 1 \<or> k = 2"
  by auto

theorem propagation_terminates_witness:
  "graph_ok ex_graph (length [1, 1, 2 :: nat]) \<and>
   list_all (\<lambda>k. no_collision ex_sha ex_graph (digests_after ex_sha ex_graph [1, 1, 2] k))
     [0..<num_sections ex_graph] \<and>
   (\<exists>k st'. propagate ex_sha ex_graph [1, 1, 2] = Some (Inr st') \<and> 0 < k \<and>
      digests st' ! slot st' = digests_after ex_sha ex_graph [1, 1, 2] k \<and>
      num_classes_of (num_sections ex_graph) (digests_after ex_sha ex_graph [1, 1, 2] k) =
      num_classes_of (num_sections ex_graph) (digests_after ex_sha ex_graph [1, 1, 2] (k - 1)))"
proof -
  have d1: "digests_after ex_sha ex_graph [1, 1, 2] (Suc 0) = [21, 11, 2]"
    by (simp add: digests_after_def next_digests_def node_input_def node_end_def ex_graph_def
        ex_sha_def upt_rec [of _ "numeral _"])
  have d2: "digests_after ex_sha ex_graph [1, 1, 2] 2 = [41, 121, 2]"
    by (simp add: digests_after_def next_digests_def node_input_def node_end_def ex_graph_def
        ex_sha_def upt_rec [of _ "numeral _"] numeral_2_eq_2)
  have g: "graph_ok ex_graph (length [1, 1, 2 :: nat])"
    by (simp add: graph_ok_def ex_graph_def node_end_def less_3_cases all_conj_distrib)
  have nc: "\<forall>k < num_sections ex_graph.
      no_collision ex_sha ex_graph (digests_after ex_sha ex_graph [1, 1, 2] k)"
  proof -
    have "no_collision ex_sha ex_graph (digests_after ex_sha ex_graph [1, 1, 2] 0)"
      by (simp add: digests_after_def no_collision_def node_input_def node_end_def ex_graph_def
        ex_sha_def less_3_cases upt_rec [of _ "numeral _"])
    moreover have "no_collision ex_sha ex_graph (digests_after ex_sha ex_graph [1, 1, 2] 1)"
      using d1 by (simp add: no_collision_def node_input_def node_end_def ex_graph_def
        ex_sha_def less_3_cases upt_rec [of _ "numeral _"])
    moreover have "no_collision ex_sha ex_graph (digests_after ex_sha ex_graph [1, 1, 2] 2)"
      using d2 by (simp add: no_collision_def node_input_def node_end_def ex_graph_def
        ex_sha_def less_3_cases upt_rec [of _ "numeral _"])
    ultimately show ?thesis by (simp add: ex_graph_def less_3_cases)
  qed
  from propagation_terminates [OF g nc]
  obtain k st' where "propagate ex_sha ex_graph [1, 1, 2] = Some (Inr st')" "0 < k"
    "digests st' ! slot st' = digests_after ex_sha ex_graph [1, 1, 2] k"
    "num_classes_of (num_sections ex_graph) (digests_after ex_sha ex_graph [1, 1, 2] k) =
     num_classes_of (num_sections ex_graph) (digests_after ex_sha ex_graph [1, 1, 2] (k - 1))"
    by blast
  moreover have "list_all (\<lambda>k. no_collision ex_sha ex_graph
      (digests_after ex_sha ex_graph [1, 1, 2] k)) [0..<num_sections ex_graph]"
    using nc by (simp add: list_all_iff)
  ultimately show ?thesis using g by blast
qed

section \<open>ICF: the leaders after the merge\<close>

lemma run_start_le: "run_start es j \<le> j"
  by (induction j) auto

lemma run_start_digest:
  "run_start es j \<le> k \<Longrightarrow> k \<le> j \<Longrightarrow> ent_digest (es ! k) = ent_digest (es ! j)"
proof (induction j)
  case 0
  then show ?case by simp
next
  case (Suc j)
  show ?case
  proof (cases "k = Suc j")
    case True
    then show ?thesis by simp
  next
    case False
    then have kj: "k \<le> j" using Suc.prems by simp
    have eq: "ent_digest (es ! j) = ent_digest (es ! Suc j)"
      using Suc.prems False by (auto split: if_splits)
    then have "run_start es (Suc j) = run_start es j" by simp
    then show ?thesis using Suc.IH kj Suc.prems(1) eq by simp
  qed
qed



lemma run_start_is_run_start: "is_run_start es (run_start es j)"
  by (induction j) (auto simp: is_run_start_def)

lemma run_start_eqI:
  "is_run_start es m \<Longrightarrow> m \<le> j \<Longrightarrow>
   (\<forall>k. m < k \<and> k \<le> j \<longrightarrow> ent_digest (es ! k) = ent_digest (es ! m)) \<Longrightarrow>
   run_start es j = m"
proof (induction j)
  case 0
  then show ?case by simp
next
  case (Suc j)
  show ?case
  proof (cases "m = Suc j")
    case True
    then show ?thesis using Suc.prems(1) by (auto simp: is_run_start_def)
  next
    case False
    then have mj: "m \<le> j" using Suc.prems(2) by simp
    have "ent_digest (es ! Suc j) = ent_digest (es ! m)" using Suc.prems(3) False mj by simp
    moreover have "ent_digest (es ! j) = ent_digest (es ! m)"
      using Suc.prems(3) mj by (cases "m = j") auto
    moreover have "run_start es j = m" using Suc.IH Suc.prems(1,3) mj by simp
    ultimately show ?thesis by simp
  qed
qed

lemma run_start_iff:
  assumes "is_run_start es m"
  shows "run_start es j = m \<and> j \<noteq> m \<longleftrightarrow>
     m < j \<and> (\<forall>k. m < k \<and> k \<le> j \<longrightarrow> ent_digest (es ! k) = ent_digest (es ! m))"
proof
  assume a: "run_start es j = m \<and> j \<noteq> m"
  then have "m < j" using run_start_le [of es j] by simp
  moreover have "\<forall>k. m < k \<and> k \<le> j \<longrightarrow> ent_digest (es ! k) = ent_digest (es ! m)"
    using run_start_digest [of es j] a run_start_le [of es j]
    by (metis less_imp_le order_refl)
  ultimately show "m < j \<and> (\<forall>k. m < k \<and> k \<le> j \<longrightarrow> ent_digest (es ! k) = ent_digest (es ! m))"
    by simp
next
  assume "m < j \<and> (\<forall>k. m < k \<and> k \<le> j \<longrightarrow> ent_digest (es ! k) = ent_digest (es ! m))"
  then show "run_start es j = m \<and> j \<noteq> m"
    using run_start_eqI [OF assms, of j] by simp
qed

lemma set_leaders_run_stop:
  "\<not> (j < length es \<and> ent_digest (es ! i) = ent_digest (es ! j)) \<Longrightarrow>
   set_leaders_run es i j ldr = ldr"
  by (subst set_leaders_run.simps) auto

lemma set_leaders_run_step:
  "j < length es \<and> ent_digest (es ! i) = ent_digest (es ! j) \<Longrightarrow>
   set_leaders_run es i j ldr =
   set_leaders_run es i (j + 1) (ldr(ent_isec (es ! j) := Some (ent_isec (es ! i))))"
  by (subst set_leaders_run.simps) auto

text \<open>The effect of the \<^verbatim>\<open>while\<close> loop on the leader of the section of an entry.\<close>

lemma set_leaders_run_nth:
  "distinct (map ent_isec es) \<Longrightarrow> k < length es \<Longrightarrow>
   set_leaders_run es i j ldr (ent_isec (es ! k)) =
     (if j \<le> k \<and> (\<forall>k'. j \<le> k' \<and> k' \<le> k \<longrightarrow> ent_digest (es ! k') = ent_digest (es ! i))
      then Some (ent_isec (es ! i)) else ldr (ent_isec (es ! k)))"
proof (induction es i j ldr rule: set_leaders_run.induct)
  case (1 es i j ldr)
  show ?case
  proof (cases "j < length es \<and> ent_digest (es ! i) = ent_digest (es ! j)")
    case False
    have neg: "\<not> (j \<le> k \<and> (\<forall>k'. j \<le> k' \<and> k' \<le> k \<longrightarrow> ent_digest (es ! k') = ent_digest (es ! i)))"
      using False "1.prems"(2) by (metis le_less_trans order_refl)
    show ?thesis unfolding set_leaders_run_stop [OF False] by (simp only: neg if_False)
  next
    case True
    let ?ldr = "ldr(ent_isec (es ! j) := Some (ent_isec (es ! i)))"
    have ih: "set_leaders_run es i (j + 1) ?ldr (ent_isec (es ! k)) =
       (if j + 1 \<le> k \<and> (\<forall>k'. j + 1 \<le> k' \<and> k' \<le> k \<longrightarrow> ent_digest (es ! k') = ent_digest (es ! i))
        then Some (ent_isec (es ! i)) else ?ldr (ent_isec (es ! k)))"
      using "1.IH" [OF True "1.prems"] .
    have inj: "ent_isec (es ! k) = ent_isec (es ! j) \<longleftrightarrow> k = j"
      using "1.prems" True by (metis distinct_conv_nth length_map nth_map)
    have st: "set_leaders_run es i j ldr = set_leaders_run es i (j + 1) ?ldr"
      by (rule set_leaders_run_step [OF True])
    show ?thesis
    proof (cases "k = j")
      case kj: True
      then show ?thesis unfolding st ih using True by auto
    next
      case kj: False
      have e: "(j \<le> k \<and> (\<forall>k'. j \<le> k' \<and> k' \<le> k \<longrightarrow> ent_digest (es ! k') = ent_digest (es ! i))) \<longleftrightarrow>
          (j + 1 \<le> k \<and> (\<forall>k'. j + 1 \<le> k' \<and> k' \<le> k \<longrightarrow> ent_digest (es ! k') = ent_digest (es ! i)))"
        using True kj by (metis Suc_eq_plus1 Suc_leI le_neq_implies_less not_less_eq_eq nat_le_linear le_trans)
      have u: "?ldr (ent_isec (es ! k)) = ldr (ent_isec (es ! k))"
        using kj inj by simp
      show ?thesis unfolding st ih e u ..
    qed
  qed
qed

lemma set_leaders_run_other:
  "s \<notin> ent_isec ` set es \<Longrightarrow> set_leaders_run es i j ldr s = ldr s"
proof (induction es i j ldr rule: set_leaders_run.induct)
  case (1 es i j ldr)
  show ?case
  proof (cases "j < length es \<and> ent_digest (es ! i) = ent_digest (es ! j)")
    case False
    then show ?thesis by (simp add: set_leaders_run_stop [OF False])
  next
    case True
    then have "ent_isec (es ! j) \<in> ent_isec ` set es" by simp
    then have ne: "s \<noteq> ent_isec (es ! j)" using "1.prems" by auto
    let ?ldr = "ldr(ent_isec (es ! j) := Some (ent_isec (es ! i)))"
    have "set_leaders_run es i (j + 1) ?ldr s = ?ldr s"
      by (rule "1.IH" [OF True "1.prems"])
    also have "?ldr s = ldr s" using ne by simp
    finally show ?thesis unfolding set_leaders_run_step [OF True] .
  qed
qed

lemma run_start_idem: "run_start es (run_start es j) = run_start es j"
  by (rule run_start_eqI [OF run_start_is_run_start]) auto

lemma leader_turns_nth:
  assumes d: "distinct (map ent_isec es)"
  shows "m \<le> length es - 1 \<Longrightarrow> j < length es \<Longrightarrow>
     fold (leader_turn es) [0..<m] ldr (ent_isec (es ! j)) =
       (if run_start es j < m \<and> run_start es j \<noteq> j
        then Some (ent_isec (es ! run_start es j)) else ldr (ent_isec (es ! j)))"
proof (induction m)
  case 0
  then show ?case by simp
next
  case (Suc m)
  let ?L = "fold (leader_turn es) [0..<m] ldr"
  have ih: "?L (ent_isec (es ! j)) =
       (if run_start es j < m \<and> run_start es j \<noteq> j
        then Some (ent_isec (es ! run_start es j)) else ldr (ent_isec (es ! j)))"
    using Suc by simp
  have f: "fold (leader_turn es) [0..<Suc m] ldr = leader_turn es m ?L" by simp
  show ?case
  proof (cases "is_run_start es m")
    case True
    then have t: "leader_turn es m ?L = set_leaders_run es m (m + 1) ?L"
      by (simp add: leader_turn_def is_run_start_def)
    have c: "(m + 1 \<le> j \<and> (\<forall>k'. m + 1 \<le> k' \<and> k' \<le> j \<longrightarrow> ent_digest (es ! k') = ent_digest (es ! m))) \<longleftrightarrow>
        (run_start es j = m \<and> j \<noteq> m)"
      unfolding run_start_iff [OF True] by (auto simp: Suc_le_eq)
    have n: "set_leaders_run es m (m + 1) ?L (ent_isec (es ! j)) =
        (if run_start es j = m \<and> j \<noteq> m then Some (ent_isec (es ! m)) else ?L (ent_isec (es ! j)))"
      unfolding set_leaders_run_nth [OF d Suc.prems(2)] c ..
    show ?thesis
    proof (cases "run_start es j = m \<and> j \<noteq> m")
      case t2: True
      then show ?thesis unfolding f t n by simp
    next
      case False
      then have e: "(run_start es j < Suc m \<and> run_start es j \<noteq> j) \<longleftrightarrow>
          (run_start es j < m \<and> run_start es j \<noteq> j)"
        by (auto simp: less_Suc_eq)
      show ?thesis unfolding f t n ih e by (simp only: False if_False)
    qed
  next
    case False
    then have t: "leader_turn es m ?L = ?L"
      by (simp add: leader_turn_def is_run_start_def)
    have "run_start es j \<noteq> m" using False run_start_is_run_start [of es j] by auto
    then have e: "(run_start es j < Suc m \<and> run_start es j \<noteq> j) \<longleftrightarrow>
          (run_start es j < m \<and> run_start es j \<noteq> j)"
      by (auto simp: less_Suc_eq)
    show ?thesis unfolding f t ih e ..
  qed
qed

lemma set_leaders_nth:
  assumes "distinct (map ent_isec es)" "j < length es"
  shows "set_leaders es ldr (ent_isec (es ! j)) =
       (if run_start es j = j then ldr (ent_isec (es ! j))
        else Some (ent_isec (es ! run_start es j)))"
proof -
  have "run_start es j \<noteq> j \<Longrightarrow> run_start es j < length es - 1"
    using run_start_le [of es j] assms(2) by simp
  then show ?thesis
    unfolding set_leaders_def using leader_turns_nth [OF assms(1) order_refl assms(2), of ldr]
    by auto
qed

lemma leader_turn_other:
  "s \<notin> ent_isec ` set es \<Longrightarrow> leader_turn es i ldr s = ldr s"
  by (simp add: leader_turn_def set_leaders_run_other)

lemma set_leaders_other:
  assumes "s \<notin> ent_isec ` set es"
  shows "set_leaders es ldr s = ldr s"
proof -
  have "fold (leader_turn es) [0..<m] ldr s = ldr s" for m
    by (induction m) (simp_all add: leader_turn_other [OF assms])
  then show ?thesis by (simp add: set_leaders_def)
qed

text \<open>No section that is a leader has a leader, when no section had one before.\<close>

lemma set_leaders_no_chain:
  assumes d: "distinct (map ent_isec es)"
  shows "set_leaders es (\<lambda>s. None) s = None \<or>
     (\<exists>l. set_leaders es (\<lambda>s. None) s = Some l \<and> set_leaders es (\<lambda>s. None) l = None)"
proof (cases "s \<in> ent_isec ` set es")
  case False
  then show ?thesis by (simp add: set_leaders_other)
next
  case True
  then obtain j where j: "j < length es" "s = ent_isec (es ! j)"
    by (auto simp: in_set_conv_nth)
  show ?thesis
  proof (cases "run_start es j = j")
    case True
    then show ?thesis using set_leaders_nth [OF d j(1)] j(2) by simp
  next
    case False
    let ?i = "run_start es j"
    have i: "?i < length es" using run_start_le [of es j] j(1) by simp
    have "set_leaders es (\<lambda>s. None) (ent_isec (es ! ?i)) = None"
      using set_leaders_nth [OF d i, of "\<lambda>s. None"] by (simp add: run_start_idem)
    then show ?thesis using set_leaders_nth [OF d j(1), of "\<lambda>s. None"] j(2) False by simp
  qed
qed



lemma reassign_symbol_settled:
  assumes nc: "\<And>s l. ldr s = Some l \<Longrightarrow> ldr l = None"
  shows "settled ldr (reassign_symbol ldr p sis) p \<and>
     (\<forall>q. settled ldr sis q \<longrightarrow> settled ldr (reassign_symbol ldr p sis) q)"
  using nc by (auto simp: settled_def reassign_symbol_def split: option.splits)

lemma fold_reassign_settled:
  assumes nc: "\<And>s l. ldr s = Some l \<Longrightarrow> ldr l = None"
  shows "(\<forall>p \<in> set ps. settled ldr (fold (reassign_symbol ldr) ps sis) p) \<and>
     (\<forall>q. settled ldr sis q \<longrightarrow> settled ldr (fold (reassign_symbol ldr) ps sis) q)"
proof (induction ps arbitrary: sis)
  case Nil
  then show ?case by simp
next
  case (Cons p ps)
  from Cons.IH [of "reassign_symbol ldr p sis"] reassign_symbol_settled [where ldr = ldr and p = p and sis = sis, OF nc]
  show ?case by auto
qed

lemma reassign_symbols_settled:
  assumes nc: "\<And>s l. ldr s = Some l \<Longrightarrow> ldr l = None"
  shows "(\<forall>symbols \<in> set files. \<forall>p \<in> set symbols. settled ldr (reassign_symbols ldr files sis) p) \<and>
     (\<forall>q. settled ldr sis q \<longrightarrow> settled ldr (reassign_symbols ldr files sis) q)"
  unfolding reassign_symbols_def
proof (induction files arbitrary: sis)
  case Nil
  then show ?case by simp
next
  case (Cons f fs)
  from Cons.IH [of "fold (reassign_symbol ldr) f sis"] fold_reassign_settled [where ldr = ldr and ps = f and sis = sis, OF nc]
  show ?case by auto
qed

lemma mset_insert_by: "mset (insert_by cmp x xs) = add_mset x (mset xs)"
  by (induction xs) auto

lemma mset_sort_by: "mset (sort_by cmp xs) = mset xs"
  by (induction xs) (simp_all add: sort_by_def mset_insert_by)

lemma make_entries_isecs:
  "make_entries sections ds = Inr entries \<Longrightarrow> map ent_isec entries = sections"
  by (auto simp: make_entries_def comp_def map_nth split: if_splits)

text \<open>In a list ordered by the comparator, equal digests lie in one run.\<close>

lemma sorted_digest_le:
  assumes "sorted_wrt (\<lambda>a b. \<not> entry_less priority b a) es" "a < b" "b < length es"
  shows "ent_digest (es ! a) \<le> ent_digest (es ! b)"
proof -
  have "\<not> entry_less priority (es ! b) (es ! a)"
    using assms by (simp add: sorted_wrt_iff_nth_less)
  then show ?thesis by (auto simp: entry_less_def split: if_splits)
qed

lemma sorted_same_run:
  assumes s: "sorted_wrt (\<lambda>a b. \<not> entry_less priority b a) es"
    and ij: "i \<le> j" "j < length es" and e: "ent_digest (es ! i) = ent_digest (es ! j)"
  shows "run_start es j = run_start es i"
proof (rule run_start_eqI [OF run_start_is_run_start])
  show "run_start es i \<le> j" using run_start_le [of es i] ij by simp
  show "\<forall>k. run_start es i < k \<and> k \<le> j \<longrightarrow>
      ent_digest (es ! k) = ent_digest (es ! run_start es i)"
  proof (intro allI impI)
    fix k assume k: "run_start es i < k \<and> k \<le> j"
    have m: "ent_digest (es ! run_start es i) = ent_digest (es ! i)"
      using run_start_digest [of es i "run_start es i"] run_start_le [of es i] by simp
    show "ent_digest (es ! k) = ent_digest (es ! run_start es i)"
    proof (cases "k \<le> i")
      case True
      then show ?thesis using run_start_digest [of es i k] k m by simp
    next
      case False
      then have "i < k" by simp
      then have "ent_digest (es ! i) \<le> ent_digest (es ! k)"
        using sorted_digest_le [OF s, of i k] k ij by simp
      moreover have "ent_digest (es ! k) \<le> ent_digest (es ! j)"
        using sorted_digest_le [OF s, of k j] k ij by (cases "k = j") auto
      ultimately show ?thesis using e m by simp
    qed
  qed
qed

lemma make_entries_paired:
  "length sections \<le> length ds \<Longrightarrow> make_entries sections ds = Inr (paired sections ds)"
  by (simp add: make_entries_def paired_def)

text \<open>Every pair of a section and its digest has a position in a permutation of the pairs.\<close>

lemma paired_position:
  assumes m: "mset es = mset (paired sections ds)" and i: "i < length sections"
  shows "\<exists>a < length es. es ! a = \<lparr>ent_isec = sections ! i, ent_digest = ds ! i\<rparr>"
proof -
  have "\<lparr>ent_isec = sections ! i, ent_digest = ds ! i\<rparr> \<in> set (paired sections ds)"
    using i by (auto simp: paired_def)
  then have "\<lparr>ent_isec = sections ! i, ent_digest = ds ! i\<rparr> \<in> set es"
    using mset_eq_setD [OF m] by simp
  then show ?thesis by (auto simp: in_set_conv_nth)
qed

lemma position_paired:
  assumes m: "mset es = mset (paired sections ds)" and a: "a < length es"
  shows "\<exists>i < length sections. es ! a = \<lparr>ent_isec = sections ! i, ent_digest = ds ! i\<rparr>"
proof -
  have "es ! a \<in> set es" using a by simp
  then have "es ! a \<in> set (paired sections ds)"
    using mset_eq_setD [OF m] by simp
  then show ?thesis by (auto simp: paired_def)
qed

lemma position_digest:
  assumes m: "mset es = mset (paired sections ds)" and d: "distinct sections"
    and a: "a < length es" and i: "i < length sections"
    and e: "ent_isec (es ! a) = sections ! i"
  shows "ent_digest (es ! a) = ds ! i"
proof -
  obtain k where k: "k < length sections"
      "es ! a = \<lparr>ent_isec = sections ! k, ent_digest = ds ! k\<rparr>"
    using position_paired [OF m a] by blast
  then have "sections ! k = sections ! i" using e by simp
  then have "k = i" using d k(1) i by (simp add: nth_eq_iff_index_eq)
  then show ?thesis using k(2) by simp
qed

lemma survivor_run_start:
  assumes "distinct (map ent_isec es)" "a < length es"
  shows "survivor (set_leaders es (\<lambda>s. None)) (ent_isec (es ! a)) = ent_isec (es ! run_start es a)"
  using set_leaders_nth [OF assms, of "\<lambda>s. None"] by (simp add: survivor_def)

text \<open>
  C5. After the merge of sections that are distinct and had no leader, \<open>ds\<close> being their
  final digests: the entries that the sort returns are the sections, each with its own
  final digest; every section has no leader, or its leader has none; a section outside
  the merge keeps no leader; in the order that the sort returns, the first entry of every
  maximal run of equal digests has no leader and is the leader of every other entry of
  the run; a section and its leader have the same final digest; every symbol of every
  file whose section is not null points to a section without leader. When the order is
  the one of the comparator (digest, then priority), the entries of equal digest form one
  run, so that two sections of equal final digest are merged into the same section, and
  the leader of a section has the least priority value of the two.
\<close>

theorem icf_merge_leaders:
  fixes ds :: "('d::linorder) list"
  assumes perm: "\<forall>xs. mset (sort_fn (entry_less priority) xs) = mset xs"
    and dist: "distinct sections" and len: "length sections \<le> length ds"
  shows "\<exists>es ldr sis.
     icf_merge sort_fn priority sections ds files (\<lambda>s. None, sis_in) = Inr (es, ldr, sis) \<and>
     mset es = mset (paired sections ds) \<and>
     mset (map ent_isec es) = mset sections \<and>
     (\<forall>s. ldr s = None \<or> (\<exists>l. ldr s = Some l \<and> ldr l = None)) \<and>
     (\<forall>s. s \<notin> set sections \<longrightarrow> ldr s = None) \<and>
     (\<forall>j < length es.
        ldr (ent_isec (es ! j)) =
          (if run_start es j = j then None else Some (ent_isec (es ! run_start es j)))) \<and>
     (\<forall>i < length sections. \<forall>j < length sections.
        ldr (sections ! j) = Some (sections ! i) \<longrightarrow> ds ! j = ds ! i) \<and>
     (\<forall>symbols \<in> set files. \<forall>p \<in> set symbols. \<forall>s. sis p = Some s \<longrightarrow> ldr s = None) \<and>
     (sorted_wrt (\<lambda>a b. \<not> entry_less priority b a) es \<longrightarrow>
        (\<forall>i < length es. \<forall>j < length es.
           ent_digest (es ! i) = ent_digest (es ! j) \<longrightarrow> run_start es i = run_start es j) \<and>
        (\<forall>i < length sections. \<forall>j < length sections.
           ds ! i = ds ! j \<longrightarrow> survivor ldr (sections ! i) = survivor ldr (sections ! j)) \<and>
        (\<forall>i < length sections. \<forall>j < length sections.
           ldr (sections ! j) = Some (sections ! i) \<longrightarrow>
             priority (sections ! i) \<le> priority (sections ! j)))"
proof -
  have en: "make_entries sections ds = Inr (paired sections ds)"
    by (rule make_entries_paired [OF len])
  let ?es = "sort_fn (entry_less priority) (paired sections ds)"
  let ?ldr = "set_leaders ?es (\<lambda>s. None)"
  let ?sis = "reassign_symbols ?ldr files sis_in"
  let ?n = "length sections"
  have r: "icf_merge sort_fn priority sections ds files (\<lambda>s. None, sis_in) = Inr (?es, ?ldr, ?sis)"
    by (simp add: icf_merge_def en Let_def)
  have m: "mset ?es = mset (paired sections ds)"
    using perm by simp
  have ms: "mset (map ent_isec ?es) = mset sections"
  proof -
    have "mset (map ent_isec ?es) = image_mset ent_isec (mset ?es)" by simp
    also have "\<dots> = image_mset ent_isec (mset (paired sections ds))" using m by simp
    also have "\<dots> = mset (map ent_isec (paired sections ds))" by simp
    finally show ?thesis using make_entries_isecs [OF en] by simp
  qed
  have d: "distinct (map ent_isec ?es)"
    using mset_eq_imp_distinct_iff [OF ms] dist by simp
  have nc: "\<And>s l. ?ldr s = Some l \<Longrightarrow> ?ldr l = None"
  proof -
    fix s l assume "?ldr s = Some l"
    then show "?ldr l = None" using set_leaders_no_chain [OF d, of s] by simp
  qed
  have c1: "\<forall>s. ?ldr s = None \<or> (\<exists>l. ?ldr s = Some l \<and> ?ldr l = None)"
    by (rule allI) (rule set_leaders_no_chain [OF d])
  have c0: "\<forall>s. s \<notin> set sections \<longrightarrow> ?ldr s = None"
  proof (intro allI impI)
    fix s assume "s \<notin> set sections"
    then have "s \<notin> ent_isec ` set ?es"
      using mset_eq_setD [OF ms] by simp
    then show "?ldr s = None" by (simp add: set_leaders_other)
  qed
  have c2: "\<forall>j < length ?es. ?ldr (ent_isec (?es ! j)) =
          (if run_start ?es j = j then None else Some (ent_isec (?es ! run_start ?es j)))"
    using set_leaders_nth [OF d, of _ "\<lambda>s. None"] by simp
  have led: "ent_digest (?es ! a) = ds ! j \<and> run_start ?es a < a \<and>
      ent_isec (?es ! run_start ?es a) = sections ! i \<and> ent_digest (?es ! run_start ?es a) = ds ! i"
    if i: "i < ?n" and j: "j < ?n" and l: "?ldr (sections ! j) = Some (sections ! i)"
      and a: "a < length ?es" and ea: "?es ! a = \<lparr>ent_isec = sections ! j, ent_digest = ds ! j\<rparr>"
    for i j a
  proof -
    have "?ldr (ent_isec (?es ! a)) = Some (sections ! i)" using l ea by simp
    then have ne: "run_start ?es a \<noteq> a" and h: "ent_isec (?es ! run_start ?es a) = sections ! i"
      using c2 [rule_format, OF a] by (auto split: if_splits)
    have lt: "run_start ?es a < a" using ne run_start_le [of ?es a] by simp
    then have "run_start ?es a < length ?es" using a by simp
    then have "ent_digest (?es ! run_start ?es a) = ds ! i"
      using position_digest [OF m dist _ i h] by simp
    then show ?thesis using lt h ea by simp
  qed
  have c5: "\<forall>i < ?n. \<forall>j < ?n. ?ldr (sections ! j) = Some (sections ! i) \<longrightarrow> ds ! j = ds ! i"
  proof (intro allI impI)
    fix i j assume i: "i < ?n" and j: "j < ?n" and l: "?ldr (sections ! j) = Some (sections ! i)"
    obtain a where a: "a < length ?es" "?es ! a = \<lparr>ent_isec = sections ! j, ent_digest = ds ! j\<rparr>"
      using paired_position [OF m j] by blast
    have "ent_digest (?es ! run_start ?es a) = ent_digest (?es ! a)"
      using run_start_digest [of ?es a "run_start ?es a"] run_start_le [of ?es a] by simp
    then show "ds ! j = ds ! i" using led [OF i j l a] by simp
  qed
  have c3: "\<forall>symbols \<in> set files. \<forall>p \<in> set symbols. \<forall>s. ?sis p = Some s \<longrightarrow> ?ldr s = None"
    using conjunct1 [OF reassign_symbols_settled
        [where ldr = ?ldr and files = files and sis = sis_in, OF nc]]
    unfolding settled_def .
  have c4: "\<forall>i < length ?es. \<forall>j < length ?es.
           ent_digest (?es ! i) = ent_digest (?es ! j) \<longrightarrow> run_start ?es i = run_start ?es j"
    if s: "sorted_wrt (\<lambda>a b. \<not> entry_less priority b a) ?es"
  proof (intro impI allI)
    fix i j
    assume i: "i < length ?es" and j: "j < length ?es"
      and e: "ent_digest (?es ! i) = ent_digest (?es ! j)"
    show "run_start ?es i = run_start ?es j"
    proof (cases "i \<le> j")
      case True
      then show ?thesis using sorted_same_run [OF s True j e] by simp
    next
      case False
      then have "j \<le> i" by simp
      then show ?thesis using sorted_same_run [OF s _ i e [symmetric]] by simp
    qed
  qed
  have c6: "\<forall>i < ?n. \<forall>j < ?n.
           ds ! i = ds ! j \<longrightarrow> survivor ?ldr (sections ! i) = survivor ?ldr (sections ! j)"
    if s: "sorted_wrt (\<lambda>a b. \<not> entry_less priority b a) ?es"
  proof (intro allI impI)
    fix i j assume i: "i < ?n" and j: "j < ?n" and e: "ds ! i = ds ! j"
    obtain a where a: "a < length ?es" "?es ! a = \<lparr>ent_isec = sections ! i, ent_digest = ds ! i\<rparr>"
      using paired_position [OF m i] by blast
    obtain b where b: "b < length ?es" "?es ! b = \<lparr>ent_isec = sections ! j, ent_digest = ds ! j\<rparr>"
      using paired_position [OF m j] by blast
    have "run_start ?es a = run_start ?es b"
      using c4 [OF s, rule_format, OF a(1) b(1)] a(2) b(2) e by simp
    then show "survivor ?ldr (sections ! i) = survivor ?ldr (sections ! j)"
      using survivor_run_start [OF d a(1)] survivor_run_start [OF d b(1)] a(2) b(2) by simp
  qed
  have c7: "\<forall>i < ?n. \<forall>j < ?n. ?ldr (sections ! j) = Some (sections ! i) \<longrightarrow>
             priority (sections ! i) \<le> priority (sections ! j)"
    if s: "sorted_wrt (\<lambda>a b. \<not> entry_less priority b a) ?es"
  proof (intro allI impI)
    fix i j assume i: "i < ?n" and j: "j < ?n" and l: "?ldr (sections ! j) = Some (sections ! i)"
    obtain a where a: "a < length ?es" "?es ! a = \<lparr>ent_isec = sections ! j, ent_digest = ds ! j\<rparr>"
      using paired_position [OF m j] by blast
    note f = led [OF i j l a]
    have "\<not> entry_less priority (?es ! a) (?es ! run_start ?es a)"
      using s f a(1) by (simp add: sorted_wrt_iff_nth_less)
    moreover have "ds ! j = ds ! i" using c5 i j l by simp
    ultimately show "priority (sections ! i) \<le> priority (sections ! j)"
      using f a(2) by (simp add: entry_less_def)
  qed
  have c8: "sorted_wrt (\<lambda>a b. \<not> entry_less priority b a) ?es \<longrightarrow>
        (\<forall>i < length ?es. \<forall>j < length ?es.
           ent_digest (?es ! i) = ent_digest (?es ! j) \<longrightarrow> run_start ?es i = run_start ?es j) \<and>
        (\<forall>i < ?n. \<forall>j < ?n.
           ds ! i = ds ! j \<longrightarrow> survivor ?ldr (sections ! i) = survivor ?ldr (sections ! j)) \<and>
        (\<forall>i < ?n. \<forall>j < ?n. ?ldr (sections ! j) = Some (sections ! i) \<longrightarrow>
             priority (sections ! i) \<le> priority (sections ! j))"
    using c4 c6 c7 by (intro impI conjI)
  show ?thesis
    by (intro exI [of _ ?es] exI [of _ ?ldr] exI [of _ ?sis] conjI r m ms c1 c0 c2 c5 c3 c8)
qed

theorem icf_merge_leaders_witness:
  "(\<forall>xs. mset (sort_by (entry_less int) xs) = mset (xs :: nat icf_entry list)) \<and>
   distinct [10, 11, 12 :: nat] \<and>
   (\<exists>es ldr sis.
      icf_merge sort_by int [10, 11, 12] [5, 7, 5 :: nat] [[0, 1], [1, 2]] (\<lambda>s. None, ex_sis) =
        Inr (es, ldr, sis) \<and>
      map ent_isec es = [10, 12, 11] \<and> ldr 12 = Some 10 \<and> ldr 10 = None \<and> ldr 11 = None \<and>
      (\<forall>s. sis 0 = Some s \<longrightarrow> ldr s = None) \<and>
      sorted_wrt (\<lambda>a b. \<not> entry_less int b a) es)"
proof -
  have perm: "\<forall>xs. mset (sort_by (entry_less int) xs) = mset (xs :: nat icf_entry list)"
    by (simp add: mset_sort_by)
  have dist: "distinct [10, 11, 12 :: nat]" by simp
  have len: "length [10, 11, 12 :: nat] \<le> length [5, 7, 5 :: nat]" by simp
  from icf_merge_leaders [where sort_fn = sort_by and priority = int and sections = "[10, 11, 12]"
      and ds = "[5, 7, 5 :: nat]" and files = "[[0, 1], [1, 2]]" and sis_in = ex_sis,
      OF perm dist len]
  obtain es ldr sis where
    a: "icf_merge sort_by int [10, 11, 12] [5, 7, 5 :: nat] [[0, 1], [1, 2]] (\<lambda>s. None, ex_sis) =
        Inr (es, ldr, sis)"
    and c2: "\<forall>j < length es. ldr (ent_isec (es ! j)) =
          (if run_start es j = j then None else Some (ent_isec (es ! run_start es j)))"
    and c3: "\<forall>symbols \<in> set [[0, 1], [1, 2]]. \<forall>p \<in> set symbols. \<forall>s. sis p = Some s \<longrightarrow> ldr s = None"
    by (elim exE conjE)
  have es: "es = [\<lparr>ent_isec = 10, ent_digest = 5\<rparr>, \<lparr>ent_isec = 12, ent_digest = 5\<rparr>,
      \<lparr>ent_isec = 11, ent_digest = 7\<rparr>]"
    using a by (simp add: icf_merge_def make_entries_def sort_by_def entry_less_def Let_def
        upt_rec [of _ "numeral _"])
  have l0: "ldr 10 = None" using c2 [rule_format, of 0] by (simp add: es)
  have l1: "ldr 12 = Some 10" using c2 [rule_format, of 1] by (simp add: es)
  have l2: "ldr 11 = None" using c2 [rule_format, of 2] by (simp add: es numeral_2_eq_2)
  have s0: "\<forall>s. sis 0 = Some s \<longrightarrow> ldr s = None" using c3 by simp
  have so: "sorted_wrt (\<lambda>a b. \<not> entry_less int b a) es"
    by (simp add: es entry_less_def)
  have m: "map ent_isec es = [10, 12, 11]" by (simp add: es)
  show ?thesis
    by (intro conjI perm dist exI [of _ es] exI [of _ ldr] exI [of _ sis] a m l0 l1 l2 s0 so)
qed

end
